theory Spec2Isabelle
  imports Complex_Main "HOL-Library.AList" "HOL-Library.Log_Nat"
begin

section \<open>JavaScript numbers\<close>

text \<open>
  A number of the script is an IEEE 754 double: a finite value, the negative zero, an
  infinity or NaN. \<open>Finite 0\<close> is the positive zero. The times of the shutdown countdown
  are such numbers; counters and indices, which stay small, are natural numbers.
\<close>

datatype number = Finite real | NegZero | PosInfinity | NegInfinity | NaN





















text \<open>
  \<^verbatim>\<open>!x\<close> for a property that holds a number or is missing: true when it is missing,
  a zero or NaN.
\<close>

fun js_not :: "number option \<Rightarrow> bool" where
  "js_not None = True"
| "js_not (Some n) = (n = Finite 0 \<or> n = NegZero \<or> n = NaN)"

section \<open>JavaScript values\<close>

text \<open>
  The controller is the Closure-based script \<^verbatim>\<open>cros.factory.Goofy\<close>. Its state is one
  global object; every method below takes that state and returns the updated one. The
  debug logger (\<^verbatim>\<open>cros.factory.logger\<close>) is not part of the state.
\<close>

datatype js_error = TypeError

datatype json =
    JNull
  | JBool bool
  | JNumber number
  | JString string
  | JArray "json list"
  | JObject "(string \<times> json) list"

text \<open>
  The value of a property read \<^verbatim>\<open>obj[key]\<close> on a plain object: an own property holds
  an object or \<^verbatim>\<open>null\<close>; a missing key is \<^verbatim>\<open>undefined\<close> unless the name is one that
  every plain object inherits from \<^verbatim>\<open>Object.prototype\<close>, where the read gives a
  function (truthy, and none of the objects the script stores).
\<close>

datatype 'a property = Undefined | Null | Inherited | Object 'a

definition Object_prototype :: "string list" where
  "Object_prototype =
     [''constructor'', ''hasOwnProperty'', ''isPrototypeOf'', ''propertyIsEnumerable'',
      ''toLocaleString'', ''toString'', ''valueOf'', ''__proto__'',
      ''__defineGetter__'', ''__defineSetter__'', ''__lookupGetter__'',
      ''__lookupSetter__'']"

definition js_in :: "string \<Rightarrow> (string \<rightharpoonup> 'a) \<Rightarrow> bool" where
  "js_in k obj = (obj k \<noteq> None \<or> k \<in> set Object_prototype)"

definition js_get :: "(string \<rightharpoonup> 'a option) \<Rightarrow> string \<Rightarrow> 'a property" where
  "js_get obj k =
     (case obj k of
        Some (Some v) \<Rightarrow> Object v
      | Some None \<Rightarrow> Null
      | None \<Rightarrow> if k \<in> set Object_prototype then Inherited else Undefined)"

text \<open>
  Strings: \<^verbatim>\<open>goog.string.startsWith\<close>, and \<^verbatim>\<open>toLowerCase\<close> on the letters A to Z (the
  status names of the backend are upper-case ASCII).
\<close>

definition startsWith :: "string \<Rightarrow> string \<Rightarrow> bool" where
  "startsWith str pre = (take (length pre) str = pre)"

definition toLowerCase_char :: "char \<Rightarrow> char" where
  "toLowerCase_char c =
     (let n = (of_char c :: nat)
      in if 65 \<le> n \<and> n \<le> 90 then char_of (n + 32) else c)"

definition toLowerCase :: "string \<Rightarrow> string" where
  "toLowerCase s = map toLowerCase_char s"

section \<open>Data model\<close>

record TestState =
  status :: string
  error_msg :: "string option"
  count :: nat

text \<open>
  An entry of the test list, as parsed from the reply of \<^verbatim>\<open>get_test_list\<close>. The field
  \<^verbatim>\<open>state\<close> is absent until \<^verbatim>\<open>setTestState\<close> assigns it. The entries form a tree; an
  entry object is referred to by its position in the tree (child indices from the
  root), so that the entry reached through \<^verbatim>\<open>pathTestMap\<close> and the one reached through
  its parent's \<^verbatim>\<open>subtests\<close> are the same object.
\<close>

datatype TestListEntry =
  TestListEntry (path: string) (label_en: string) (label_zh: string)
    (kbd_shortcut: "string option") (state: "TestState option")
    (subtests: "TestListEntry list")

type_synonym test_ref = "nat list"

fun entry_at :: "TestListEntry \<Rightarrow> test_ref \<Rightarrow> TestListEntry option" where
  "entry_at t [] = Some t"
| "entry_at t (i # is) =
     (if i < length (subtests t) then entry_at (subtests t ! i) is else None)"

fun assign_state :: "TestListEntry \<Rightarrow> test_ref \<Rightarrow> TestState \<Rightarrow> TestListEntry" where
  "assign_state (TestListEntry p en zh k s subs) [] st = TestListEntry p en zh k (Some st) subs"
| "assign_state (TestListEntry p en zh k s subs) (i # is) st =
     (if i < length subs
      then TestListEntry p en zh k s (subs[i := assign_state (subs ! i) is st])
      else TestListEntry p en zh k s subs)"

text \<open>
  A node of the tree control. A node is referred to by its position in the control,
  innermost child index first, so that the parent of node \<open>i # p\<close> is node \<open>p\<close> and the
  root (the \<^verbatim>\<open>TreeControl\<close> itself) is \<open>[]\<close>.
\<close>

record TreeNode =
  classes :: "string list"
  expanded :: bool
  childCount :: nat

type_synonym node_ref = "nat list"

record PendingShutdownEvent =
  delay_secs :: number
  time :: "number option"
  operation :: string
  iteration :: nat
  iterations :: nat

datatype DialogKind = AlertDialog | PromptDialog | ShutdownDialog | PlainDialog

record Dialog =
  kind :: DialogKind
  content :: string
  visible :: bool
  disposed :: bool
  dialogClasses :: "string list"
  timerRunning :: bool
  shutdownInfo :: "PendingShutdownEvent option"

text \<open>
  The sandbox of an invocation: an iframe under \<^verbatim>\<open>goofy-main\<close>. Its document is the
  list of markup strings written since the body was last cleared. What the scripts
  evaluated inside it do is outside the model: evaluations and calls are recorded, and
  \<open>definedFunctions\<close> lists the names that evaluate to a function there.
\<close>

record IFrame =
  attached :: bool
  body :: "string list option"
  evaluated :: "(json \<times> string) list"
  definedFunctions :: "string list"
  applied :: "(string \<times> json list) list"

record Invocation =
  inv_path :: string
  inv_uuid :: string
  inv_iframe :: "nat option"

type_synonym event = "(string \<times> json) list"

record Goofy =
  ws_isOpen :: bool
  wsOpened :: bool
  ws_sent :: "event list"
  uuid :: "string option"
  reloads :: nat
  contextMenuVisible :: bool
  tooltips :: "bool list"
  testList :: "TestListEntry option"
  treeNodes :: "node_ref \<rightharpoonup> TreeNode"
  pathNodeMap :: "string \<rightharpoonup> node_ref"
  pathTestMap :: "string \<rightharpoonup> test_ref"
  pendingCollapse :: "(node_ref \<times> test_ref option) list"
  infoTooltip :: string
  invocations :: "string \<rightharpoonup> nat option"
  invocationObjects :: "Invocation list"
  iframes :: "IFrame list"
  dialogs :: "Dialog list"
  engineeringModeDialog :: "nat option"
  shutdownDialog :: "nat option"
  dialog :: "nat option"
  engineeringMode :: bool
  engineeringPasswordSHA1 :: "string option"
  bodyClasses :: "string list"
  console :: "string list"

text \<open>The state built by the constructor \<^verbatim>\<open>cros.factory.Goofy\<close>; the socket is a parameter.\<close>

definition new_Goofy :: "bool \<Rightarrow> Goofy" where
  "new_Goofy opened =
     \<lparr> ws_isOpen = opened, wsOpened = False, ws_sent = [], uuid = None, reloads = 0,
       contextMenuVisible = False, tooltips = [], testList = None,
       treeNodes = Map.empty, pathNodeMap = Map.empty, pathTestMap = Map.empty,
       pendingCollapse = [], infoTooltip = ''Version information not yet available.'',
       invocations = Map.empty, invocationObjects = [], iframes = [], dialogs = [],
       engineeringModeDialog = None, shutdownDialog = None, dialog = None,
       engineeringMode = False, engineeringPasswordSHA1 = Some ''?'',
       bodyClasses = [], console = [] \<rparr>"

section \<open>Transport\<close>

text \<open>
  \<^verbatim>\<open>sendEvent\<close> clones the properties, sets \<^verbatim>\<open>type\<close> and hands the serialised object
  to the socket; \<open>ws_sent\<close> collects what was handed over, in order.
\<close>

definition sendEvent :: "string \<Rightarrow> event \<Rightarrow> Goofy \<Rightarrow> Goofy" where
  "sendEvent type properties g =
     g\<lparr>ws_sent := ws_sent g @ [AList.update ''type'' (JString type) properties]\<rparr>"

definition json_of_uuid :: "string option \<Rightarrow> json" where
  "json_of_uuid u = (case u of None \<Rightarrow> JNull | Some s \<Rightarrow> JString s)"

definition keepAlive :: "Goofy \<Rightarrow> Goofy" where
  "keepAlive g =
     (if ws_isOpen g
      then sendEvent ''goofy:keepalive'' [(''uuid'', json_of_uuid (uuid g))] g
      else g)"

section \<open>Invocations\<close>

definition blank_iframe :: IFrame where
  "blank_iframe =
     \<lparr> attached = True, body = Some [], evaluated = [], definedFunctions = [], applied = [] \<rparr>"

text \<open>
  The constructor \<^verbatim>\<open>cros.factory.Invocation\<close>: a new object with a new blank iframe
  appended to \<^verbatim>\<open>goofy-main\<close>. Objects and iframes are referred to by their index in
  the lists of all objects created so far.
\<close>

definition new_Invocation :: "string \<Rightarrow> string \<Rightarrow> Goofy \<Rightarrow> nat \<times> Goofy" where
  "new_Invocation p u g =
     (length (invocationObjects g),
      g\<lparr> iframes := iframes g @ [blank_iframe],
         invocationObjects := invocationObjects g @
           [\<lparr> inv_path = p, inv_uuid = u, inv_iframe = Some (length (iframes g)) \<rparr>] \<rparr>)"

definition removeNode :: "nat \<Rightarrow> IFrame list \<Rightarrow> IFrame list" where
  "removeNode i fs = (if i < length fs then fs[i := (fs ! i)\<lparr>attached := False\<rparr>] else fs)"

definition dispose :: "nat \<Rightarrow> Goofy \<Rightarrow> Goofy" where
  "dispose r g =
     (if r < length (invocationObjects g)
      then (let inv = invocationObjects g ! r
            in case inv_iframe inv of
                 None \<Rightarrow> g
               | Some i \<Rightarrow>
                   g\<lparr> iframes := removeNode i (iframes g),
                      invocations := (invocations g)(inv_uuid inv \<mapsto> None),
                      invocationObjects :=
                        (invocationObjects g)[r := inv\<lparr>inv_iframe := None\<rparr>] \<rparr>)
      else g)"

definition getOrCreateInvocation ::
  "string \<Rightarrow> string \<Rightarrow> Goofy \<Rightarrow> nat property \<times> Goofy" where
  "getOrCreateInvocation p invocationUuid g =
     (let g' = (if \<not> js_in invocationUuid (invocations g)
                then (case new_Invocation p invocationUuid g of
                        (r, g1) \<Rightarrow>
                          g1\<lparr>invocations := (invocations g1)(invocationUuid \<mapsto> Some r)\<rparr>)
                else g)
      in (js_get (invocations g') invocationUuid, g'))"


text \<open>The API that a sandbox sees as \<^verbatim>\<open>window.test\<close> (\<^verbatim>\<open>cros.factory.Test\<close>).\<close>

definition Test_pass :: "nat \<Rightarrow> Goofy \<Rightarrow> Goofy" where
  "Test_pass r g =
     (if r < length (invocationObjects g)
      then (let inv = invocationObjects g ! r
            in dispose r
                 (sendEvent ''goofy:end_test''
                    [(''status'', JString ''PASSED''),
                     (''invocation'', JString (inv_uuid inv)),
                     (''test'', JString (inv_path inv))] g))
      else g)"

definition Test_fail :: "nat \<Rightarrow> string \<Rightarrow> Goofy \<Rightarrow> Goofy" where
  "Test_fail r errorMsg g =
     (if r < length (invocationObjects g)
      then (let inv = invocationObjects g ! r
            in dispose r
                 (sendEvent ''goofy:end_test''
                    [(''status'', JString ''FAILED''),
                     (''error_msg'', JString errorMsg),
                     (''invocation'', JString (inv_uuid inv)),
                     (''test'', JString (inv_path inv))] g))
      else g)"

definition Test_sendTestEvent :: "nat \<Rightarrow> string \<Rightarrow> json \<Rightarrow> Goofy \<Rightarrow> Goofy" where
  "Test_sendTestEvent r subtype data g =
     (if r < length (invocationObjects g)
      then (let inv = invocationObjects g ! r
            in sendEvent ''goofy:test_ui_event''
                 [(''test'', JString (inv_path inv)),
                  (''invocation'', JString (inv_uuid inv)),
                  (''subtype'', JString subtype),
                  (''data'', data)] g)
      else g)"

section \<open>Tree model\<close>

definition js_read :: "(string \<rightharpoonup> 'a) \<Rightarrow> string \<Rightarrow> 'a property" where
  "js_read obj k =
     (case obj k of
        Some v \<Rightarrow> Object v
      | None \<Rightarrow> if k \<in> set Object_prototype then Inherited else Undefined)"

text \<open>
  Modelled from the library: \<^verbatim>\<open>goog.dom.classes.addRemove\<close> on the class attribute of
  an element, kept as the list of its class names (a class name holds no white space):
  the classes to remove are dropped, the class to add is appended unless it is there
  already.
\<close>

definition addRemove :: "string list \<Rightarrow> string list \<Rightarrow> string \<Rightarrow> string list" where
  "addRemove cls classesToRemove classToAdd =
     (let kept = filter (\<lambda>c. c \<notin> set classesToRemove) cls
      in if classToAdd \<in> set kept then kept else kept @ [classToAdd])"

definition setExpanded ::
  "node_ref \<Rightarrow> bool \<Rightarrow> (node_ref \<rightharpoonup> TreeNode) \<Rightarrow> (node_ref \<rightharpoonup> TreeNode)" where
  "setExpanded n b nodes =
     (case nodes n of None \<Rightarrow> nodes | Some nd \<Rightarrow> nodes(n \<mapsto> nd\<lparr>expanded := b\<rparr>))"

text \<open>
  Modelled from the library: \<^verbatim>\<open>BaseNode.reveal\<close> expands every ancestor, from the
  parent up to the root.
\<close>

fun reveal :: "node_ref \<Rightarrow> (node_ref \<rightharpoonup> TreeNode) \<Rightarrow> (node_ref \<rightharpoonup> TreeNode)" where
  "reveal [] nodes = nodes"
| "reveal (i # parent) nodes = reveal parent (setExpanded parent True nodes)"

definition AUTO_COLLAPSE :: bool where
  "AUTO_COLLAPSE = False"

text \<open>
  \<^verbatim>\<open>setTestState\<close>. The reads that throw happen before anything is assigned, so a
  \<open>TypeError\<close> leaves the state as it was. A reference that is not in the store does
  not occur in the script; the model answers \<open>TypeError\<close> there too.
\<close>

definition setTestState :: "string \<Rightarrow> TestState \<Rightarrow> Goofy \<Rightarrow> js_error + Goofy" where
  "setTestState p st g =
     (case js_read (pathNodeMap g) p of
        Undefined \<Rightarrow> Inr g
      | Null \<Rightarrow> Inr g
      | Inherited \<Rightarrow> Inl TypeError
      | Object node \<Rightarrow>
          (case treeNodes g node of
             None \<Rightarrow> Inl TypeError
           | Some nd \<Rightarrow>
               (case js_read (pathTestMap g) p of
                  Undefined \<Rightarrow> Inl TypeError
                | Null \<Rightarrow> Inl TypeError
                | test \<Rightarrow>
                    (let g1 = (case test of
                                 Object r \<Rightarrow>
                                   g\<lparr>testList :=
                                       map_option (\<lambda>t. assign_state t r st) (testList g)\<rparr>
                               | _ \<Rightarrow> g);
                         elt = addRemove (classes nd)
                                 (filter (\<lambda>cls. startsWith cls ''goofy-status-'') (classes nd))
                                 (''goofy-status-'' @ toLowerCase (status st));
                         g2 = g1\<lparr>treeNodes := (treeNodes g1)(node \<mapsto> nd\<lparr>classes := elt\<rparr>)\<rparr>
                     in if status st = ''ACTIVE''
                        then Inr (g2\<lparr>treeNodes := reveal node (treeNodes g2)\<rparr>)
                        else if AUTO_COLLAPSE \<and> childCount nd \<noteq> 0
                        then Inr (g2\<lparr>pendingCollapse :=
                                       pendingCollapse g2 @
                                         [(node, case test of Object r \<Rightarrow> Some r | _ \<Rightarrow> None)]\<rparr>)
                        else Inr g2))))"

text \<open>
  \<^verbatim>\<open>addToNode\<close>: one tree node per entry, children first, then the two maps are
  assigned at the entry's path. The entry at position \<open>pos\<close> gets the node \<open>rev pos\<close>.
\<close>

fun addToNode :: "nat list \<Rightarrow> TestListEntry \<Rightarrow> Goofy \<Rightarrow> Goofy"
  and addSubtests :: "nat list \<Rightarrow> nat \<Rightarrow> TestListEntry list \<Rightarrow> Goofy \<Rightarrow> Goofy" where
  "addToNode pos (TestListEntry p en zh k s subs) g =
     (let g1 = g\<lparr>treeNodes := (treeNodes g)(rev pos \<mapsto>
                   \<lparr> classes = [], expanded = False, childCount = length subs \<rparr>)\<rparr>;
          g2 = addSubtests pos 0 subs g1
      in g2\<lparr> pathNodeMap := (pathNodeMap g2)(p \<mapsto> rev pos),
             pathTestMap := (pathTestMap g2)(p \<mapsto> pos) \<rparr>)"
| "addSubtests pos i [] g = g"
| "addSubtests pos i (t # ts) g = addSubtests pos (Suc i) ts (addToNode (pos @ [i]) t g)"

text \<open>
  \<^verbatim>\<open>setTestList\<close>, as far as the model goes: the entries are stored and the tree is
  built, collapsed. Listeners and tooltips are not modelled.
\<close>

definition setTestList :: "TestListEntry \<Rightarrow> Goofy \<Rightarrow> Goofy" where
  "setTestList t g = addToNode [] t (g\<lparr>testList := Some t\<rparr>)"

text \<open>
  The callback for the reply to \<^verbatim>\<open>get_test_states\<close>: every state of the map whose path
  does not start with an underscore is set, in the order of the map; an error ends the
  loop.
\<close>

fun setTestStates :: "(string \<times> TestState) list \<Rightarrow> Goofy \<Rightarrow> Goofy" where
  "setTestStates [] g = g"
| "setTestStates ((p, st) # stateMap) g =
     (if startsWith p ''_'' then setTestStates stateMap g
      else (case setTestState p st g of
              Inl e \<Rightarrow> g
            | Inr g1 \<Rightarrow> setTestStates stateMap g1))"

section \<open>Context menu\<close>

text \<open>Decimal rendering of a count, as string concatenation with a number gives it.\<close>

function decimal :: "nat \<Rightarrow> string" where
  "decimal n =
     (if n < 10 then [char_of (48 + n)] else decimal (n div 10) @ [char_of (48 + n mod 10)])"
  by pat_completeness auto
termination
  by (relation "measure id") auto

declare decimal.simps [simp del]

text \<open>
  Modelled from the library: \<^verbatim>\<open>goog.string.htmlEscape\<close> replaces the four characters
  that are special in markup by their entities.
\<close>

definition htmlEscape :: "string \<Rightarrow> string" where
  \<open>htmlEscape str =
     concat (map (\<lambda>c. if c = CHR ''&'' then ''&amp;''
                       else if c = CHR ''<'' then ''&lt;''
                       else if c = CHR ''>'' then ''&gt;''
                       else if c = CHR 0x22 then ''&quot;''
                       else [c]) str)\<close>

record MenuItem =
  labelEn :: string
  enabled :: bool
  handler :: "string \<times> event"

datatype MenuEntry = Item MenuItem | MenuSeparator

text \<open>
  \<^verbatim>\<open>makeMenuItem\<close>. Only the English label is built; the Chinese one follows the
  same cases. The handler of every item in the script is one call of \<^verbatim>\<open>sendEvent\<close>,
  kept here as its two arguments.
\<close>

definition makeMenuItem ::
  "string \<Rightarrow> string \<Rightarrow> nat \<Rightarrow> TestListEntry \<Rightarrow> string \<times> event \<Rightarrow> bool \<Rightarrow> MenuItem" where
  \<open>makeMenuItem verbEn adjectiveEn cnt test hdl opt_adjectiveAtEnd =
     (let labelEn0 = verbEn @ '' '';
          labelEn1 =
            (if subtests test = []
             then labelEn0 @ (if opt_adjectiveAtEnd then [] else adjectiveEn) @
                    '' test '' @ label_en test
             else labelEn0 @ decimal cnt @ '' '' @
                    (if opt_adjectiveAtEnd then [] else adjectiveEn) @ '' '' @
                    (if cnt = 1 then ''test'' else ''tests'') @
                    (if label_en test \<noteq> []
                     then '' in "'' @ htmlEscape (label_en test) @ ''"'' else []));
          labelEn2 =
            (if opt_adjectiveAtEnd
             then labelEn1 @ '' that '' @ (if cnt = 1 then ''has'' else ''have'') @
                    '' not passed''
             else labelEn1)
      in \<lparr> labelEn = labelEn2, enabled = (cnt \<noteq> 0), handler = hdl \<rparr>)\<close>

text \<open>
  Selecting an item runs its handler. The menu of the library dispatches no action for
  a disabled item.
\<close>

definition selectItem :: "MenuItem \<Rightarrow> Goofy \<Rightarrow> Goofy" where
  "selectItem item g =
     (if enabled item then sendEvent (fst (handler item)) (snd (handler item)) g else g)"

record LeafCount =
  numLeaves :: nat
  numLeavesByStatus :: "string \<rightharpoonup> nat"
  allPaths :: "string list"

text \<open>
  The local function \<^verbatim>\<open>countLeaves\<close> of \<^verbatim>\<open>showTestPopup\<close>, with the three variables it
  updates. Reading the status of a leaf whose \<^verbatim>\<open>state\<close> was never assigned throws.
  The counter object is read here only at the keys \<^verbatim>\<open>UNTESTED\<close>, \<^verbatim>\<open>ACTIVE\<close> and
  \<^verbatim>\<open>FAILED\<close>.
\<close>

fun countLeaves :: "TestListEntry \<Rightarrow> LeafCount \<Rightarrow> js_error + LeafCount"
  and countLeaves_forEach :: "TestListEntry list \<Rightarrow> LeafCount \<Rightarrow> js_error + LeafCount" where
  "countLeaves (TestListEntry p en zh k s subs) c =
     (case countLeaves_forEach subs (c\<lparr>allPaths := allPaths c @ [p]\<rparr>) of
        Inl e \<Rightarrow> Inl e
      | Inr c1 \<Rightarrow>
          (if subs = []
           then (case s of
                   None \<Rightarrow> Inl TypeError
                 | Some st \<Rightarrow>
                     Inr (c1\<lparr> numLeaves := numLeaves c1 + 1,
                              numLeavesByStatus := (numLeavesByStatus c1)(status st \<mapsto>
                                1 + (case numLeavesByStatus c1 (status st) of
                                       None \<Rightarrow> 0 | Some n \<Rightarrow> n)) \<rparr>))
           else Inr c1))"
| "countLeaves_forEach [] c = Inr c"
| "countLeaves_forEach (t # ts) c =
     (case countLeaves t c of Inl e \<Rightarrow> Inl e | Inr c1 \<Rightarrow> countLeaves_forEach ts c1)"

definition or0 :: "nat option \<Rightarrow> nat" where
  "or0 v = (case v of None \<Rightarrow> 0 | Some n \<Rightarrow> n)"

text \<open>
  The menu that \<^verbatim>\<open>showTestPopup\<close> builds under the extra items, given the entry and the
  counters. The read of the entry's own status for the logs item comes after the items
  are made and throws when the entry has no state; the logs item itself is not added.
  The handler of the Stop item calls \<^verbatim>\<open>sendEvent\<close> with the type alone; cloning the
  missing properties gives the empty object.
\<close>

definition testMenu :: "string \<Rightarrow> TestListEntry \<Rightarrow> LeafCount \<Rightarrow> js_error + MenuEntry list" where
  "testMenu p test c =
     (let restartOrRunEn0 =
            (if numLeavesByStatus c ''UNTESTED'' = Some (numLeaves c)
             then ''Run'' else ''Restart'');
          restartOrRunEn =
            (if numLeaves c > 1 then restartOrRunEn0 @ '' all'' else restartOrRunEn0);
          menu1 = [Item (makeMenuItem restartOrRunEn [] (numLeaves c) test
                     (''goofy:restart_tests'', [(''path'', JString p)]) False)];
          menu2 =
            (if subtests test \<noteq> []
             then menu1 @
               [Item (makeMenuItem ''Restart'' ''not passed''
                  (or0 (numLeavesByStatus c ''UNTESTED'') +
                   or0 (numLeavesByStatus c ''ACTIVE'') +
                   or0 (numLeavesByStatus c ''FAILED''))
                  test
                  (''goofy:run_tests_with_status'',
                   [(''status'',
                     JArray [JString ''UNTESTED'', JString ''ACTIVE'', JString ''FAILED'']),
                    (''path'', JString p)])
                  True),
                Item (makeMenuItem ''Run'' ''untested''
                  (or0 (numLeavesByStatus c ''UNTESTED'') +
                   or0 (numLeavesByStatus c ''ACTIVE''))
                  test
                  (''goofy:auto_run'', [(''path'', JString p)]) False)]
             else menu1);
          menu3 = menu2 @
            [MenuSeparator,
             Item (makeMenuItem ''Stop'' ''active''
                (or0 (numLeavesByStatus c ''ACTIVE'')) test (''goofy:stop'', []) False)]
      in case state test of
           None \<Rightarrow> Inl TypeError
         | Some st \<Rightarrow> Inr menu3)"

text \<open>
  \<^verbatim>\<open>showTestPopup\<close>: the menu is flagged visible from the first statement on and every
  tooltip is hidden, also when building the menu throws.
\<close>

definition showTestPopup ::
  "string \<Rightarrow> MenuEntry list \<Rightarrow> Goofy \<Rightarrow> (js_error + MenuEntry list) \<times> Goofy" where
  "showTestPopup p extraItems g =
     (let g1 = g\<lparr> contextMenuVisible := True,
                 tooltips := map (\<lambda>_. False) (tooltips g) \<rparr>;
          menu0 = (if extraItems \<noteq> [] then extraItems @ [MenuSeparator] else [])
      in case js_read (pathTestMap g1) p of
           Object r \<Rightarrow>
             (case testList g1 of
                None \<Rightarrow> (Inl TypeError, g1)
              | Some tl0 \<Rightarrow>
                  (case entry_at tl0 r of
                     None \<Rightarrow> (Inl TypeError, g1)
                   | Some test \<Rightarrow>
                       (case countLeaves test
                               \<lparr> numLeaves = 0, numLeavesByStatus = Map.empty,
                                 allPaths = [] \<rparr> of
                          Inl e \<Rightarrow> (Inl e, g1)
                        | Inr c \<Rightarrow>
                            (case testMenu p test c of
                               Inl e \<Rightarrow> (Inl e, g1)
                             | Inr menu \<Rightarrow> (Inr (menu0 @ menu), g1)))))
         | _ \<Rightarrow> (Inl TypeError, g1))"

section \<open>Dialogs and the engineering-mode gate\<close>

definition classes_add :: "string list \<Rightarrow> string \<Rightarrow> string list" where
  "classes_add cls c = (if c \<in> set cls then cls else cls @ [c])"

definition classes_enable :: "string list \<Rightarrow> string \<Rightarrow> bool \<Rightarrow> string list" where
  "classes_enable cls c on = (if on then classes_add cls c else filter (\<lambda>x. x \<noteq> c) cls)"

text \<open>
  Dialogs are objects of the page; \<open>dialogs\<close> lists every dialog created so far and a
  dialog is referred to by its index. Hiding a visible dialog dispatches \<^verbatim>\<open>HIDE\<close>, on
  which the listener of a countdown dialog disposes of its timer.
\<close>

definition setVisible_false :: "nat \<Rightarrow> Dialog list \<Rightarrow> Dialog list" where
  "setVisible_false d ds =
     (if d < length ds \<and> visible (ds ! d)
      then ds[d := (ds ! d)\<lparr>visible := False, timerRunning := False\<rparr>]
      else ds)"

definition dialog_dispose :: "nat \<Rightarrow> Dialog list \<Rightarrow> Dialog list" where
  "dialog_dispose d ds = (if d < length ds then ds[d := (ds ! d)\<lparr>disposed := True\<rparr>] else ds)"

definition alert :: "string \<Rightarrow> Goofy \<Rightarrow> Goofy" where
  "alert messageHtml g =
     g\<lparr>dialogs := dialogs g @
         [\<lparr> kind = AlertDialog, content = messageHtml, visible = True, disposed = False,
            dialogClasses = [''goofy-alert''], timerRunning = False,
            shutdownInfo = None \<rparr>]\<rparr>"

definition setEngineeringMode :: "bool \<Rightarrow> Goofy \<Rightarrow> Goofy" where
  "setEngineeringMode on g =
     g\<lparr> engineeringMode := on,
        bodyClasses := classes_enable (bodyClasses g) ''goofy-engineering-mode'' on \<rparr>"

text \<open>
  \<^verbatim>\<open>promptEngineeringPassword\<close> up to showing the prompt. The stored hash is falsy when
  it is \<^verbatim>\<open>null\<close> or the empty string.
\<close>

definition promptEngineeringPassword :: "Goofy \<Rightarrow> Goofy" where
  "promptEngineeringPassword g =
     (let g1 = (case engineeringModeDialog g of
                  None \<Rightarrow> g
                | Some d \<Rightarrow>
                    g\<lparr> dialogs := dialog_dispose d (setVisible_false d (dialogs g)),
                       engineeringModeDialog := None \<rparr>)
      in if engineeringPasswordSHA1 g1 = None \<or> engineeringPasswordSHA1 g1 = Some []
         then alert ''No password has been set.'' g1
         else if engineeringMode g1
         then setEngineeringMode False g1
         else g1\<lparr> dialogs := dialogs g1 @
                     [\<lparr> kind = PromptDialog, content = ''Password'', visible = True,
                        disposed = False,
                        dialogClasses = [''goofy-engineering-mode-dialog''],
                        timerRunning = False, shutdownInfo = None \<rparr>],
                  engineeringModeDialog := Some (length (dialogs g1)) \<rparr>)"

text \<open>
  The callback that the prompt invokes with the entered text (\<^verbatim>\<open>null\<close> when the prompt
  is cancelled). \<open>sha1_hex\<close> stands for the digest of \<^verbatim>\<open>goog.crypt.Sha1\<close> rendered by
  \<^verbatim>\<open>goog.crypt.byteArrayToHex\<close>; both are library code, taken as a parameter.
\<close>

definition passwordEntered :: "(string \<Rightarrow> string) \<Rightarrow> string option \<Rightarrow> Goofy \<Rightarrow> Goofy" where
  "passwordEntered sha1_hex text g =
     (case text of
        None \<Rightarrow> g
      | Some t \<Rightarrow>
          if t = [] then g
          else if Some (sha1_hex t) = engineeringPasswordSHA1 g
          then setEngineeringMode True g
          else alert ''Incorrect password.'' g)"

definition closeDialog :: "Goofy \<Rightarrow> Goofy" where
  "closeDialog g =
     (case dialog g of
        None \<Rightarrow> g
      | Some d \<Rightarrow>
          g\<lparr> dialogs := dialog_dispose d (setVisible_false d (dialogs g)),
             dialog := None \<rparr>)"

section \<open>Shutdown countdown\<close>




definition shutdownContent :: "PendingShutdownEvent \<Rightarrow> string" where
  \<open>shutdownContent info =
     (let verbEn = (if operation info = ''reboot'' then ''Rebooting'' else ''Shutting down'');
          timesEn = (if iterations info = 1 then ''once''
                     else decimal (iteration info) @ '' of '' @
                          decimal (iterations info) @ '' times'')
      in ''<p>'' @ verbEn @ '' in <span class="goofy-shutdown-secs"></span> '' @
         ''second<span class="goofy-shutdown-secs-plural"></span> ('' @ timesEn @
         '').<br>'' @ ''To cancel, press the Escape key.</p>'')\<close>

text \<open>
  \<^verbatim>\<open>setPendingShutdown\<close>. The message object itself is never missing; its target time
  is falsy when it is absent, a zero or NaN. Of the content only the English paragraph is
  kept. The new dialog starts its timer and is made visible.
\<close>

definition setPendingShutdown :: "PendingShutdownEvent \<Rightarrow> Goofy \<Rightarrow> Goofy" where
  "setPendingShutdown info g =
     (let g1 = (case shutdownDialog g of
                  None \<Rightarrow> g
                | Some d \<Rightarrow>
                    g\<lparr> dialogs := dialog_dispose d (setVisible_false d (dialogs g)),
                       shutdownDialog := None \<rparr>)
      in if js_not (time info) then g1
         else (let g2 = closeDialog g1
               in g2\<lparr> dialogs := dialogs g2 @
                         [\<lparr> kind = ShutdownDialog, content = shutdownContent info,
                            visible = True, disposed = False,
                            dialogClasses = [''goofy-shutdown-dialog''],
                            timerRunning = True, shutdownInfo = Some info \<rparr>],
                       shutdownDialog := Some (length (dialogs g2)) \<rparr>))"

text \<open>The key listener of the countdown dialog: Escape asks the backend to cancel.\<close>

definition onKey :: "bool \<Rightarrow> Goofy \<Rightarrow> Goofy" where
  "onKey isEsc g = (if isEsc then sendEvent ''goofy:cancel_shutdown'' [] g else g)"

section \<open>System information\<close>

definition Label :: "string \<Rightarrow> string" where
  \<open>Label en =
     ''<span class="goofy-label-en">'' @ en @ ''</span>'' @
     ''<span class="goofy-label-zh">'' @ en @ ''</span>''\<close>

text \<open>Key, label and whether the item has the transform that shows a missing value as "(no update)".\<close>

definition SYSTEM_INFO_LABELS :: "(string \<times> string \<times> bool) list" where
  "SYSTEM_INFO_LABELS =
     [(''serial_number'', Label ''Serial Number'', False),
      (''factory_image_version'', Label ''Factory Image Version'', False),
      (''wlan0_mac'', Label ''WLAN MAC'', False),
      (''kernel_version'', Label ''Kernel'', False),
      (''ec_version'', Label ''EC'', False),
      (''firmware_version'', Label ''Firmware'', False),
      (''factory_md5sum'', Label ''Factory MD5SUM'', True)]"

definition UNKNOWN_LABEL :: string where
  \<open>UNKNOWN_LABEL = ''<span class="goofy-unknown">'' @ Label ''Unknown'' @ ''</span>''\<close>

definition setSystemInfo :: "(string \<rightharpoonup> string option) \<Rightarrow> Goofy \<Rightarrow> Goofy" where
  \<open>setSystemInfo systemInfo g =
     g\<lparr>infoTooltip :=
         ''<table id="goofy-system-info">'' @
         concat (map (\<lambda>(key, label, transform).
                   let v = systemInfo key;
                       html =
                         (if transform
                          then (case v of
                                  Some (Some s) \<Rightarrow> if s = [] then Label ''(no update)'' else s
                                | _ \<Rightarrow> Label ''(no update)'')
                          else (case v of
                                  Some (Some s) \<Rightarrow> htmlEscape s
                                | _ \<Rightarrow> UNKNOWN_LABEL))
                   in ''<tr><th>'' @ label @ ''</th><td>'' @ html @ ''</td></tr>'')
                 SYSTEM_INFO_LABELS) @
         ''</table>''\<rparr>\<close>

definition logToConsole :: "string \<Rightarrow> Goofy \<Rightarrow> Goofy" where
  "logToConsole message g = g\<lparr>console := console g @ [message]\<rparr>"

definition logInternal :: "string \<Rightarrow> Goofy \<Rightarrow> Goofy" where
  "logInternal message g = logToConsole message g"

text \<open>
  The listeners of \<^verbatim>\<open>initWebSocket\<close> for the socket being opened, failing and being
  closed. \<open>ws_isOpen\<close> is the state of the socket itself, as \<^verbatim>\<open>ws.isOpen()\<close> reads it.
\<close>

definition ws_OPENED :: "Goofy \<Rightarrow> Goofy" where
  "ws_OPENED g =
     (logInternal ''Connection to Goofy opened.'' (g\<lparr>ws_isOpen := True\<rparr>))\<lparr>wsOpened := True\<rparr>"

definition ws_ERROR :: "Goofy \<Rightarrow> Goofy" where
  "ws_ERROR g = logInternal ''Error connecting to Goofy.'' g"

definition ws_CLOSED :: "Goofy \<Rightarrow> Goofy" where
  "ws_CLOSED g =
     (let g1 = g\<lparr>ws_isOpen := False\<rparr>
      in if wsOpened g1
         then (logInternal ''Connection to Goofy closed.'' g1)\<lparr>wsOpened := False\<rparr>
         else g1)"

section \<open>Event dispatcher\<close>

text \<open>
  The parsed message of the backend, by its \<^verbatim>\<open>type\<close>; a message of any other type is
  \<open>OtherEvent\<close>. The fields of the invocation events are the test path, the
  invocation id and the payload.
\<close>

datatype BackendEvent =
    Hello "string option"
  | Log string
  | StateChange string TestState
  | SetHtml string string bool string
  | RunJs string string json string
  | CallJsFunction string string string "json list"
  | DestroyTest string
  | SystemInfo "string \<rightharpoonup> string option"
  | PendingShutdown PendingShutdownEvent
  | OtherEvent string

text \<open>
  The iframe of an invocation object that came out of \<open>getOrCreateInvocation\<close>. Reading
  \<^verbatim>\<open>iframe.contentDocument\<close> on an inherited function, or on an object whose iframe is
  gone, throws.
\<close>

definition iframe_of :: "nat property \<Rightarrow> Goofy \<Rightarrow> js_error + nat option" where
  "iframe_of invocation g =
     (case invocation of
        Undefined \<Rightarrow> Inr None
      | Null \<Rightarrow> Inr None
      | Inherited \<Rightarrow> Inl TypeError
      | Object r \<Rightarrow>
          if r < length (invocationObjects g)
          then (case inv_iframe (invocationObjects g ! r) of
                  None \<Rightarrow> Inl TypeError
                | Some i \<Rightarrow> if i < length (iframes g) then Inr (Some i) else Inl TypeError)
          else Inl TypeError)"

definition update_iframe :: "nat \<Rightarrow> (IFrame \<Rightarrow> IFrame) \<Rightarrow> Goofy \<Rightarrow> Goofy" where
  "update_iframe i f g = g\<lparr>iframes := (iframes g)[i := f (iframes g ! i)]\<rparr>"

definition document_write :: "string \<Rightarrow> IFrame \<Rightarrow> IFrame" where
  "document_write html fr =
     fr\<lparr>body := Some ((case body fr of None \<Rightarrow> [] | Some b \<Rightarrow> b) @ [html])\<rparr>"

definition removeChildren :: "IFrame \<Rightarrow> IFrame" where
  "removeChildren fr = fr\<lparr>body := Some []\<rparr>"

definition handleBackendEvent :: "BackendEvent \<Rightarrow> Goofy \<Rightarrow> js_error + Goofy" where
  "handleBackendEvent message g =
     (case message of
        Hello message_uuid \<Rightarrow>
          if uuid g \<noteq> None \<and> uuid g \<noteq> Some [] \<and> message_uuid \<noteq> uuid g
          then Inr (g\<lparr>reloads := reloads g + 1\<rparr>)
          else Inr (keepAlive (g\<lparr>uuid := message_uuid\<rparr>))
      | Log line \<Rightarrow> Inr (logToConsole line g)
      | StateChange p st \<Rightarrow> setTestState p st g
      | SetHtml test invocationUuid appending html \<Rightarrow>
          (case getOrCreateInvocation test invocationUuid g of
             (invocation, g1) \<Rightarrow>
               (case iframe_of invocation g1 of
                  Inl e \<Rightarrow> Inl e
                | Inr None \<Rightarrow> Inr g1
                | Inr (Some i) \<Rightarrow>
                    Inr (update_iframe i
                           (\<lambda>fr. document_write html
                                    (if \<not> appending \<and> body fr \<noteq> None
                                     then removeChildren fr else fr)) g1)))
      | RunJs test invocationUuid args js \<Rightarrow>
          (case getOrCreateInvocation test invocationUuid g of
             (invocation, g1) \<Rightarrow>
               (case iframe_of invocation g1 of
                  Inl e \<Rightarrow> Inl e
                | Inr None \<Rightarrow> Inr g1
                | Inr (Some i) \<Rightarrow>
                    Inr (update_iframe i
                           (\<lambda>fr. fr\<lparr>evaluated := evaluated fr @ [(args, js)]\<rparr>) g1)))
      | CallJsFunction test invocationUuid name args \<Rightarrow>
          (case getOrCreateInvocation test invocationUuid g of
             (invocation, g1) \<Rightarrow>
               (case iframe_of invocation g1 of
                  Inl e \<Rightarrow> Inl e
                | Inr None \<Rightarrow> Inr g1
                | Inr (Some i) \<Rightarrow>
                    Inr (update_iframe i
                           (\<lambda>fr. if name \<in> set (definedFunctions fr)
                                  then fr\<lparr>applied := applied fr @ [(name, args)]\<rparr>
                                  else fr) g1)))
      | DestroyTest invocationUuid \<Rightarrow>
          (case js_get (invocations g) invocationUuid of
             Undefined \<Rightarrow> Inr g
           | Null \<Rightarrow> Inr g
           | Inherited \<Rightarrow> Inl TypeError
           | Object r \<Rightarrow> Inr (dispose r g))
      | SystemInfo systemInfo \<Rightarrow> Inr (setSystemInfo systemInfo g)
      | PendingShutdown info \<Rightarrow> Inr (setPendingShutdown info g)
      | OtherEvent type \<Rightarrow> Inr g)"

text \<open>Events in arrival order; an uncaught error ends the handling of that event only.\<close>

fun handleAll :: "BackendEvent list \<Rightarrow> Goofy \<Rightarrow> Goofy" where
  "handleAll [] g = g"
| "handleAll (m # ms) g =
     (case handleBackendEvent m g of Inl e \<Rightarrow> handleAll ms g | Inr g1 \<Rightarrow> handleAll ms g1)"

section \<open>Inputs of the controller\<close>

text \<open>
  The callback of \<^verbatim>\<open>init\<close> for the reply to \<^verbatim>\<open>get_shared_data(test_list_options)\<close>:
  the hash is stored, and engineering mode is enabled when there is none.
\<close>

definition testListOptions :: "string option \<Rightarrow> Goofy \<Rightarrow> Goofy" where
  "testListOptions engineering_password_sha1 g =
     setEngineeringMode (engineering_password_sha1 = None)
       (g\<lparr>engineeringPasswordSHA1 := engineering_password_sha1\<rparr>)"

text \<open>The listener for \<^verbatim>\<open>HIDE\<close> on the context menu.\<close>

definition menuHidden :: "Goofy \<Rightarrow> Goofy" where
  "menuHidden g = g\<lparr>contextMenuVisible := False\<rparr>"

text \<open>
  What makes the controller run: the socket being opened, failing or being closed, a
  message of the backend, the keepalive timer, the replies to its start-up calls, the
  keys for engineering mode and for cancelling a shutdown, the text entered in the
  password prompt, a click on a tree node followed by the choice of the \<open>k\<close>-th menu
  entry, and the calls of a sandbox on its test API. (The keyboard shortcuts of tests,
  the language selector and the menu of the title are left out; they send events and
  calls only.) The test list is asked for once, in \<^verbatim>\<open>init\<close>, so only the first reply is
  taken. The script is single-threaded: each input is
  handled to the end before the next, and an uncaught error ends the handling of that
  input only. \<open>run\<close> handles a sequence of inputs in order.
\<close>

datatype Input =
    SocketOpened
  | SocketError
  | SocketClosed
  | Backend BackendEvent
  | KeepAliveTimer
  | TestListReply TestListEntry
  | TestStatesReply "(string \<times> TestState) list"
  | SystemInfoReply "string \<rightharpoonup> string option"
  | TestListOptionsReply "string option"
  | CtrlAlt0
  | PasswordText "string option"
  | EscapeKey
  | MenuChoice string nat
  | SandboxPass nat
  | SandboxFail nat string
  | SandboxTestEvent nat string json

definition menuChoice :: "string \<Rightarrow> nat \<Rightarrow> Goofy \<Rightarrow> Goofy" where
  "menuChoice p k g =
     (case showTestPopup p [] g of
        (Inl e, g1) \<Rightarrow> g1
      | (Inr menu, g1) \<Rightarrow>
          menuHidden
            (if k < length menu
             then (case menu ! k of Item it \<Rightarrow> selectItem it g1 | MenuSeparator \<Rightarrow> g1)
             else g1))"

definition step :: "(string \<Rightarrow> string) \<Rightarrow> Input \<Rightarrow> Goofy \<Rightarrow> Goofy" where
  "step sha1_hex inp g =
     (case inp of
        SocketOpened \<Rightarrow> ws_OPENED g
      | SocketError \<Rightarrow> ws_ERROR g
      | SocketClosed \<Rightarrow> ws_CLOSED g
      | Backend message \<Rightarrow>
          (case handleBackendEvent message g of Inl e \<Rightarrow> g | Inr g1 \<Rightarrow> g1)
      | KeepAliveTimer \<Rightarrow> keepAlive g
      | TestListReply t \<Rightarrow> (if testList g = None then setTestList t g else g)
      | TestStatesReply stateMap \<Rightarrow> setTestStates stateMap g
      | SystemInfoReply systemInfo \<Rightarrow> setSystemInfo systemInfo g
      | TestListOptionsReply h \<Rightarrow> testListOptions h g
      | CtrlAlt0 \<Rightarrow> promptEngineeringPassword g
      | PasswordText text \<Rightarrow> passwordEntered sha1_hex text g
      | EscapeKey \<Rightarrow> (if shutdownDialog g \<noteq> None then onKey True g else g)
      | MenuChoice p k \<Rightarrow> menuChoice p k g
      | SandboxPass r \<Rightarrow> Test_pass r g
      | SandboxFail r msg \<Rightarrow> Test_fail r msg g
      | SandboxTestEvent r subtype data \<Rightarrow> Test_sendTestEvent r subtype data g)"

fun run :: "(string \<Rightarrow> string) \<Rightarrow> Input list \<Rightarrow> Goofy \<Rightarrow> Goofy" where
  "run sha1_hex [] g = g"
| "run sha1_hex (inp # inps) g = run sha1_hex inps (step sha1_hex inp g)"

section \<open>Notions of the specification\<close>

text \<open>The state that the tree model holds for a path: the \<^verbatim>\<open>state\<close> of \<^verbatim>\<open>pathTestMap[path]\<close>.\<close>

definition test_state :: "Goofy \<Rightarrow> string \<Rightarrow> TestState option" where
  "test_state g p =
     (case pathTestMap g p of
        None \<Rightarrow> None
      | Some r \<Rightarrow>
          (case testList g of
             None \<Rightarrow> None
           | Some t \<Rightarrow> (case entry_at t r of None \<Rightarrow> None | Some e \<Rightarrow> state e)))"

definition status_classes :: "string list \<Rightarrow> string list" where
  "status_classes cls = filter (\<lambda>c. startsWith c ''goofy-status-'') cls"

text \<open>The leaf tests of a subtree, and how many of a list of leaves have one of the given statuses.\<close>

fun leaves :: "TestListEntry \<Rightarrow> TestListEntry list" where
  "leaves (TestListEntry p en zh k s subs) =
     (if subs = [] then [TestListEntry p en zh k s subs] else concat (map leaves subs))"

definition has_status :: "string list \<Rightarrow> TestListEntry \<Rightarrow> bool" where
  "has_status ss l = (case state l of None \<Rightarrow> False | Some st \<Rightarrow> status st \<in> set ss)"

definition with_status :: "string list \<Rightarrow> TestListEntry list \<Rightarrow> nat" where
  "with_status ss ls = length (filter (has_status ss) ls)"

text \<open>The countdown dialogs on screen, and the countdown timers that tick, by index.\<close>

definition visible_countdowns :: "Goofy \<Rightarrow> nat list" where
  "visible_countdowns g =
     filter (\<lambda>i. kind (dialogs g ! i) = ShutdownDialog \<and> visible (dialogs g ! i))
       [0 ..< length (dialogs g)]"

definition ticking_timers :: "Goofy \<Rightarrow> nat list" where
  "ticking_timers g = filter (\<lambda>i. timerRunning (dialogs g ! i)) [0 ..< length (dialogs g)]"

definition alerts :: "Goofy \<Rightarrow> Dialog list" where
  "alerts g = filter (\<lambda>d. kind d = AlertDialog) (dialogs g)"

text \<open>The sandboxes on the page: the iframes still attached under \<^verbatim>\<open>goofy-main\<close>.\<close>

definition live_iframes :: "Goofy \<Rightarrow> nat list" where
  "live_iframes g = filter (\<lambda>i. attached (iframes g ! i)) [0 ..< length (iframes g)]"

section \<open>A sample session\<close>

definition sample_leaf :: "string \<Rightarrow> string \<Rightarrow> string \<Rightarrow> TestListEntry" where
  "sample_leaf p l s =
     TestListEntry p l l None (Some \<lparr>status = s, error_msg = None, count = 0\<rparr>) []"

definition sample_SMT :: TestListEntry where
  "sample_SMT =
     TestListEntry ''SMT'' ''SMT'' ''SMT'' None
       (Some \<lparr>status = ''FAILED'', error_msg = None, count = 0\<rparr>)
       [sample_leaf ''SMT.LED'' ''LED'' ''UNTESTED'',
        sample_leaf ''SMT.Audio'' ''Audio'' ''UNTESTED'',
        sample_leaf ''SMT.Camera'' ''Camera'' ''FAILED'',
        sample_leaf ''SMT.Keyboard'' ''Keyboard'' ''PASSED'',
        sample_leaf ''SMT.Touchpad'' ''Touchpad'' ''PASSED'',
        sample_leaf ''SMT.Battery'' ''Battery'' ''PASSED'']"

definition sample_testList :: TestListEntry where
  "sample_testList =
     TestListEntry [] [] [] None (Some \<lparr>status = ''FAILED'', error_msg = None, count = 0\<rparr>)
       [sample_SMT]"

definition sample_goofy :: Goofy where
  "sample_goofy = setTestList sample_testList (new_Goofy True)"

text \<open>
  A digest function for the examples: it is constant, and its value is the SHA-1 digest
  of the empty text, so it agrees with SHA-1 there. The theorems hold for every digest
  function.
\<close>

definition digest_of_empty :: "string \<Rightarrow> string" where
  "digest_of_empty text = ''da39a3ee5e6b4b0d3255bfef95601890afd80709''"

text \<open>The sample session after a sandbox for \<^verbatim>\<open>SMT.LED\<close> was filled and the test became active.\<close>

definition sample_active :: Goofy where
  "sample_active =
     handleAll
       [SetHtml ''SMT.LED'' ''u1'' False ''<p>LED</p>'',
        StateChange ''SMT.LED'' \<lparr>status = ''ACTIVE'', error_msg = None, count = 1\<rparr>]
       sample_goofy"

text \<open>
  The invariant behind the countdown: a countdown dialog on screen, or a timer that
  ticks, is the one dialog that \<^verbatim>\<open>shutdownDialog\<close> refers to, and that dialog is on
  screen.
\<close>

definition countdown_inv :: "Goofy \<Rightarrow> bool" where
  "countdown_inv g =
     ((\<forall>i < length (dialogs g).
         (kind (dialogs g ! i) = ShutdownDialog \<and> visible (dialogs g ! i) \<or>
          timerRunning (dialogs g ! i)) \<longrightarrow>
         shutdownDialog g = Some i \<and> visible (dialogs g ! i)) \<and>
      (\<forall>d. shutdownDialog g = Some d \<longrightarrow> d < length (dialogs g)))"

definition sample_shutdown :: PendingShutdownEvent where
  "sample_shutdown =
     \<lparr>delay_secs = Finite 10, time = Some (Finite 1000), operation = ''reboot'', iteration = 1, iterations = 1\<rparr>"

text \<open>
  Two invariants of the states that the controller reaches. In the tree model, every
  path with a tree node has that node in the tree control and an entry of the test
  list. Among the invocations, objects and iframes are created together, so an object
  and its iframe have the same index; a run id bound to an object is the id of that
  object, which then has its iframe; and an object that has its iframe is attached to
  the page and bound to its run id.
\<close>

definition tree_inv :: "Goofy \<Rightarrow> bool" where
  "tree_inv g =
     (\<forall>p n. pathNodeMap g p = Some n \<longrightarrow>
        (\<exists>nd. treeNodes g n = Some nd) \<and>
        (\<exists>r t e. pathTestMap g p = Some r \<and> testList g = Some t \<and> entry_at t r = Some e))"

definition invocation_inv :: "Goofy \<Rightarrow> bool" where
  "invocation_inv g =
     (length (iframes g) = length (invocationObjects g) \<and>
      (\<forall>u r. invocations g u = Some (Some r) \<longrightarrow>
         r < length (invocationObjects g) \<and>
         inv_uuid (invocationObjects g ! r) = u \<and>
         inv_iframe (invocationObjects g ! r) = Some r) \<and>
      (\<forall>r i. r < length (invocationObjects g) \<and>
         inv_iframe (invocationObjects g ! r) = Some i \<longrightarrow>
         i = r \<and> attached (iframes g ! r) \<and>
         invocations g (inv_uuid (invocationObjects g ! r)) = Some (Some r)))"

definition same_tree :: "Goofy \<Rightarrow> Goofy \<Rightarrow> bool" where
  "same_tree g' g =
     (pathNodeMap g' = pathNodeMap g \<and> treeNodes g' = treeNodes g \<and>
      pathTestMap g' = pathTestMap g \<and> testList g' = testList g)"

definition same_invocations :: "Goofy \<Rightarrow> Goofy \<Rightarrow> bool" where
  "same_invocations g' g =
     (invocations g' = invocations g \<and> invocationObjects g' = invocationObjects g \<and>
      iframes g' = iframes g)"

section \<open>Lemmas on the tree model\<close>

lemma entry_at_assign_state:
  "entry_at t r = Some e \<Longrightarrow>
   \<exists>e'. entry_at (assign_state t r st) r = Some e' \<and> state e' = Some st"
proof (induction r arbitrary: t)
  case Nil
  then show ?case by (cases t) auto
next
  case (Cons i r)
  then show ?case by (cases t) (auto split: if_splits)
qed

lemma setExpanded_classes:
  "map_option classes (setExpanded n b nodes q) = map_option classes (nodes q)"
  by (auto simp: setExpanded_def split: option.splits)

lemma reveal_classes:
  "map_option classes (reveal n nodes q) = map_option classes (nodes q)"
  by (induction n arbitrary: nodes) (simp_all add: setExpanded_classes)

lemma startsWith_append: "startsWith (pre @ s) pre"
  by (simp add: startsWith_def)

lemma status_classes_addRemove:
  "status_classes (addRemove cls (status_classes cls) (''goofy-status-'' @ s)) =
     [''goofy-status-'' @ s]"
proof -
  let ?new = "''goofy-status-'' @ s"
  let ?kept = "filter (\<lambda>c. c \<notin> set (status_classes cls)) cls"
  have sw: "startsWith ?new ''goofy-status-''" by (rule startsWith_append)
  have kept: "\<forall>c \<in> set ?kept. \<not> startsWith c ''goofy-status-''"
    by (auto simp: status_classes_def)
  then have none: "status_classes ?kept = []"
    unfolding status_classes_def by (simp add: filter_empty_conv)
  from kept sw have "?new \<notin> set ?kept" by blast
  then have "addRemove cls (status_classes cls) ?new = ?kept @ [?new]"
    by (simp add: addRemove_def Let_def)
  then show ?thesis using none sw by (simp add: status_classes_def)
qed

lemma other_classes_addRemove:
  "filter (\<lambda>c. \<not> startsWith c ''goofy-status-'')
     (addRemove cls (status_classes cls) (''goofy-status-'' @ s)) =
   filter (\<lambda>c. \<not> startsWith c ''goofy-status-'') cls"
proof -
  let ?new = "''goofy-status-'' @ s"
  let ?kept = "filter (\<lambda>c. c \<notin> set (status_classes cls)) cls"
  have sw: "startsWith ?new ''goofy-status-''" by (rule startsWith_append)
  have "filter (\<lambda>c. \<not> startsWith c ''goofy-status-'') ?kept =
        filter (\<lambda>c. \<not> startsWith c ''goofy-status-'') cls"
    unfolding filter_filter by (rule filter_cong) (auto simp: status_classes_def)
  then show ?thesis using sw by (simp add: addRemove_def Let_def)
qed

lemma setTestState_present:
  assumes n: "pathNodeMap g p = Some n" and nd: "treeNodes g n = Some nd"
    and r: "pathTestMap g p = Some r" and t: "testList g = Some t"
    and e: "entry_at t r = Some e"
  shows "\<exists>g'. setTestState p st g = Inr g' \<and> test_state g' p = Some st \<and>
           (\<exists>nd'. treeNodes g' n = Some nd' \<and>
              status_classes (classes nd') = [''goofy-status-'' @ toLowerCase (status st)] \<and>
              filter (\<lambda>c. \<not> startsWith c ''goofy-status-'') (classes nd') =
              filter (\<lambda>c. \<not> startsWith c ''goofy-status-'') (classes nd))"
proof -
  obtain e' where e': "entry_at (assign_state t r st) r = Some e'" "state e' = Some st"
    using entry_at_assign_state[OF e] by blast
  let ?elt = "addRemove (classes nd) (status_classes (classes nd))
                (''goofy-status-'' @ toLowerCase (status st))"
  let ?g1 = "g\<lparr>testList := Some (assign_state t r st)\<rparr>"
  let ?g2 = "?g1\<lparr>treeNodes := (treeNodes ?g1)(n \<mapsto> nd\<lparr>classes := ?elt\<rparr>)\<rparr>"
  let ?g3 = "?g2\<lparr>treeNodes := reveal n (treeNodes ?g2)\<rparr>"
  have branches: "setTestState p st g = Inr ?g2 \<or> setTestState p st g = Inr ?g3"
    using n nd r t
    by (simp add: setTestState_def js_read_def AUTO_COLLAPSE_def Let_def status_classes_def)
  have ts2: "test_state ?g2 p = Some st" using r e' by (simp add: test_state_def)
  have ts3: "test_state ?g3 p = Some st" using r e' by (simp add: test_state_def)
  have c2: "map_option classes (treeNodes ?g2 n) = Some ?elt" by simp
  have c3: "map_option classes (treeNodes ?g3 n) = Some ?elt"
    by (simp add: reveal_classes)
  have fin: "test_state g' p = Some st \<and>
           (\<exists>nd'. treeNodes g' n = Some nd' \<and>
              status_classes (classes nd') = [''goofy-status-'' @ toLowerCase (status st)] \<and>
              filter (\<lambda>c. \<not> startsWith c ''goofy-status-'') (classes nd') =
              filter (\<lambda>c. \<not> startsWith c ''goofy-status-'') (classes nd))"
    if "test_state g' p = Some st" "map_option classes (treeNodes g' n) = Some ?elt" for g'
    using that status_classes_addRemove other_classes_addRemove by fastforce
  from branches show ?thesis
  proof
    assume "setTestState p st g = Inr ?g2"
    then show ?thesis using fin[OF ts2 c2] by blast
  next
    assume "setTestState p st g = Inr ?g3"
    then show ?thesis using fin[OF ts3 c3] by blast
  qed
qed

lemma sample_LED:
  "pathNodeMap sample_goofy ''SMT.LED'' = Some [0, 0]"
  "treeNodes sample_goofy [0, 0] = Some \<lparr>classes = [], expanded = False, childCount = 0\<rparr>"
  "pathTestMap sample_goofy ''SMT.LED'' = Some [0, 0]"
  "testList sample_goofy = Some sample_testList"
  "entry_at sample_testList [0, 0] = Some (sample_leaf ''SMT.LED'' ''LED'' ''UNTESTED'')"
  by (simp_all add: sample_goofy_def setTestList_def sample_testList_def sample_SMT_def sample_leaf_def
        new_Goofy_def)

section \<open>Invocations\<close>

text \<open>
  Claim C7. When the run id \<open>u\<close> is bound to a live invocation object \<open>r\<close>,
  get-or-create with \<open>u\<close> and any path returns that object and leaves the whole state,
  and so the list of iframes, as it was.
\<close>

theorem getOrCreateInvocation_existing:
  assumes "invocations g u = Some (Some r)"
  shows "getOrCreateInvocation p u g = (Object r, g)"
  using assms by (simp add: getOrCreateInvocation_def js_in_def js_get_def)

theorem getOrCreateInvocation_existing_witness:
  "invocations (snd (getOrCreateInvocation ''SMT.LED'' ''u1'' sample_goofy)) ''u1'' =
     Some (Some 0) \<and>
   getOrCreateInvocation ''SMT.Audio'' ''u1''
       (snd (getOrCreateInvocation ''SMT.LED'' ''u1'' sample_goofy)) =
     (Object 0, snd (getOrCreateInvocation ''SMT.LED'' ''u1'' sample_goofy))"
proof -
  have first: "invocations (snd (getOrCreateInvocation ''SMT.LED'' ''u1'' sample_goofy)) ''u1'' =
     Some (Some 0)"
    by (simp add: getOrCreateInvocation_def js_in_def js_get_def new_Invocation_def
          sample_goofy_def setTestList_def sample_testList_def sample_SMT_def sample_leaf_def new_Goofy_def
          Object_prototype_def)
  show ?thesis
    using getOrCreateInvocation_existing[OF first, of "''SMT.Audio''"] first by simp
qed

section \<open>Disposal of invocations\<close>

lemma addToNode_frame:
  "invocations (addToNode pos t g) = invocations g \<and>
   dialogs (addToNode pos t g) = dialogs g \<and>
   shutdownDialog (addToNode pos t g) = shutdownDialog g"
  "invocations (addSubtests pos i ts g) = invocations g \<and>
   dialogs (addSubtests pos i ts g) = dialogs g \<and>
   shutdownDialog (addSubtests pos i ts g) = shutdownDialog g"
  by (induction pos t g and pos i ts g rule: addToNode_addSubtests.induct)
     (simp_all add: Let_def)

lemma setTestState_frame:
  "setTestState p st g = Inr g' \<Longrightarrow>
     invocations g' = invocations g \<and> invocationObjects g' = invocationObjects g \<and>
     iframes g' = iframes g \<and> dialogs g' = dialogs g \<and>
     shutdownDialog g' = shutdownDialog g \<and> ws_sent g' = ws_sent g"
  by (auto simp: setTestState_def Let_def split: property.splits option.splits if_splits)

lemma setTestStates_frame:
  "invocations (setTestStates stateMap g) = invocations g \<and>
   invocationObjects (setTestStates stateMap g) = invocationObjects g \<and>
   iframes (setTestStates stateMap g) = iframes g \<and>
   dialogs (setTestStates stateMap g) = dialogs g \<and>
   shutdownDialog (setTestStates stateMap g) = shutdownDialog g"
proof (induction stateMap arbitrary: g)
  case Nil
  show ?case by simp
next
  case (Cons a stateMap)
  obtain p st where a: "a = (p, st)" by (cases a)
  show ?case
  proof (cases "setTestState p st g")
    case (Inl e)
    then show ?thesis using a Cons.IH[of g] by simp
  next
    case (Inr g1)
    then show ?thesis using a Cons.IH[of g] Cons.IH[of g1] setTestState_frame[OF Inr] by simp
  qed
qed

lemma socket_frame:
  "invocations (ws_OPENED g) = invocations g \<and> invocationObjects (ws_OPENED g) = invocationObjects g \<and>
   iframes (ws_OPENED g) = iframes g \<and> dialogs (ws_OPENED g) = dialogs g \<and>
   shutdownDialog (ws_OPENED g) = shutdownDialog g \<and> same_tree (ws_OPENED g) g"
  "invocations (ws_ERROR g) = invocations g \<and> invocationObjects (ws_ERROR g) = invocationObjects g \<and>
   iframes (ws_ERROR g) = iframes g \<and> dialogs (ws_ERROR g) = dialogs g \<and>
   shutdownDialog (ws_ERROR g) = shutdownDialog g \<and> same_tree (ws_ERROR g) g"
  "invocations (ws_CLOSED g) = invocations g \<and> invocationObjects (ws_CLOSED g) = invocationObjects g \<and>
   iframes (ws_CLOSED g) = iframes g \<and> dialogs (ws_CLOSED g) = dialogs g \<and>
   shutdownDialog (ws_CLOSED g) = shutdownDialog g \<and> same_tree (ws_CLOSED g) g"
  "invocations (keepAlive g) = invocations g \<and> invocationObjects (keepAlive g) = invocationObjects g \<and>
   iframes (keepAlive g) = iframes g \<and> dialogs (keepAlive g) = dialogs g \<and>
   shutdownDialog (keepAlive g) = shutdownDialog g \<and> same_tree (keepAlive g) g"
  "invocations (setSystemInfo si g) = invocations g \<and>
   invocationObjects (setSystemInfo si g) = invocationObjects g \<and>
   iframes (setSystemInfo si g) = iframes g \<and> dialogs (setSystemInfo si g) = dialogs g \<and>
   shutdownDialog (setSystemInfo si g) = shutdownDialog g \<and> same_tree (setSystemInfo si g) g"
  by (simp_all add: ws_OPENED_def ws_ERROR_def ws_CLOSED_def keepAlive_def setSystemInfo_def
        logInternal_def logToConsole_def sendEvent_def same_tree_def Let_def)

lemma dispose_keeps_null:
  "invocations g u = Some None \<Longrightarrow> invocations (dispose r g) u = Some None"
  by (simp add: dispose_def Let_def split: option.splits)

lemma getOrCreate_keeps_null:
  "invocations g u = Some None \<Longrightarrow>
   invocations (snd (getOrCreateInvocation p u' g)) u = Some None"
  by (auto simp: getOrCreateInvocation_def Let_def new_Invocation_def js_in_def)

lemma setPendingShutdown_invocations:
  "invocations (setPendingShutdown info g) = invocations g"
  by (simp add: setPendingShutdown_def closeDialog_def Let_def split: option.splits)

lemma handle_keeps_null:
  assumes "invocations g u = Some None" "handleBackendEvent m g = Inr g'"
  shows "invocations g' u = Some None"
proof (cases m)
  case (StateChange p st)
  then show ?thesis using assms setTestState_frame[of p st g g']
    by (simp add: handleBackendEvent_def)
next
  case (SetHtml p u' a h)
  then show ?thesis using assms getOrCreate_keeps_null[OF assms(1), of p u']
    by (auto simp: handleBackendEvent_def update_iframe_def
          split: prod.splits sum.splits option.splits)
next
  case (RunJs p u' a h)
  then show ?thesis using assms getOrCreate_keeps_null[OF assms(1), of p u']
    by (auto simp: handleBackendEvent_def update_iframe_def
          split: prod.splits sum.splits option.splits)
next
  case (CallJsFunction p u' a h)
  then show ?thesis using assms getOrCreate_keeps_null[OF assms(1), of p u']
    by (auto simp: handleBackendEvent_def update_iframe_def
          split: prod.splits sum.splits option.splits)
next
  case (DestroyTest u')
  then show ?thesis using assms dispose_keeps_null[OF assms(1)]
    by (auto simp: handleBackendEvent_def split: property.splits)
qed (use assms in \<open>auto simp: handleBackendEvent_def keepAlive_def sendEvent_def
      logToConsole_def setSystemInfo_def setPendingShutdown_invocations split: if_splits\<close>)

lemma step_keeps_null:
  assumes "invocations g u = Some None"
  shows "invocations (step h inp g) u = Some None"
proof (cases inp)
  case (Backend m)
  then show ?thesis using assms handle_keeps_null[OF assms, of m]
    by (auto simp: step_def split: sum.splits)
next
  case (TestListReply t)
  then show ?thesis using assms by (simp add: step_def setTestList_def addToNode_frame)
next
  case (TestStatesReply stateMap)
  then show ?thesis using assms by (simp add: step_def setTestStates_frame)
next
  case (MenuChoice p k)
  then show ?thesis using assms
    by (auto simp: step_def menuChoice_def showTestPopup_def menuHidden_def selectItem_def
          sendEvent_def Let_def
          split: prod.splits sum.splits property.splits option.splits MenuEntry.splits)
next
  case (SandboxPass r)
  then show ?thesis using assms dispose_keeps_null
    by (simp add: step_def Test_pass_def Let_def sendEvent_def)
next
  case (SandboxFail r msg)
  then show ?thesis using assms dispose_keeps_null
    by (simp add: step_def Test_fail_def Let_def sendEvent_def)
qed (use assms in \<open>auto simp: step_def testListOptions_def setEngineeringMode_def
      promptEngineeringPassword_def alert_def passwordEntered_def onKey_def sendEvent_def
      Test_sendTestEvent_def socket_frame Let_def split: option.splits\<close>)

lemma run_keeps_null:
  "invocations g u = Some None \<Longrightarrow> invocations (run h inps g) u = Some None"
  by (induction inps arbitrary: g) (simp_all add: step_keeps_null)

lemma null_binding_ignored:
  assumes "invocations g u = Some None"
  shows "getOrCreateInvocation p u g = (Null, g)"
    and "handleBackendEvent (SetHtml p u a html) g = Inr g"
    and "handleBackendEvent (RunJs p u args js) g = Inr g"
    and "handleBackendEvent (CallJsFunction p u name cargs) g = Inr g"
proof -
  show goc: "getOrCreateInvocation p u g = (Null, g)"
    using assms by (simp add: getOrCreateInvocation_def js_in_def js_get_def)
  show "handleBackendEvent (SetHtml p u a html) g = Inr g"
    by (simp add: handleBackendEvent_def goc iframe_of_def)
  show "handleBackendEvent (RunJs p u args js) g = Inr g"
    by (simp add: handleBackendEvent_def goc iframe_of_def)
  show "handleBackendEvent (CallJsFunction p u name cargs) g = Inr g"
    by (simp add: handleBackendEvent_def goc iframe_of_def)
qed

lemma test_state_cong:
  "pathTestMap g' = pathTestMap g \<Longrightarrow> testList g' = testList g \<Longrightarrow>
   test_state g' = test_state g"
  by (rule ext) (simp add: test_state_def cong: option.case_cong)

lemma live_iframes_removeNode:
  "live_iframes (g\<lparr>iframes := removeNode i (iframes g)\<rparr>) = removeAll i (live_iframes g)"
proof -
  have "filter (\<lambda>j. attached (removeNode i (iframes g) ! j)) [0 ..< length (iframes g)] =
        filter (\<lambda>j. i \<noteq> j \<and> attached (iframes g ! j)) [0 ..< length (iframes g)]"
    by (rule filter_cong) (auto simp: removeNode_def nth_list_update)
  moreover have "length (removeNode i (iframes g)) = length (iframes g)"
    by (simp add: removeNode_def)
  ultimately show ?thesis
    by (simp add: live_iframes_def removeAll_filter_not_eq conj_commute)
qed

lemma dispose_live:
  assumes r: "r < length (invocationObjects g)"
    and i: "inv_iframe (invocationObjects g ! r) = Some i"
  shows "invocations (dispose r g) = (invocations g)(inv_uuid (invocationObjects g ! r) \<mapsto> None)"
    and "inv_iframe (invocationObjects (dispose r g) ! r) = None"
    and "live_iframes (dispose r g) = removeAll i (live_iframes g)"
    and "testList (dispose r g) = testList g"
    and "pathTestMap (dispose r g) = pathTestMap g"
    and "test_state (dispose r g) = test_state g"
proof -
  let ?inv = "invocationObjects g ! r"
  let ?g' = "g\<lparr> iframes := removeNode i (iframes g),
                 invocations := (invocations g)(inv_uuid ?inv \<mapsto> None),
                 invocationObjects := (invocationObjects g)[r := ?inv\<lparr>inv_iframe := None\<rparr>] \<rparr>"
  have d: "dispose r g = ?g'" using r i by (simp add: dispose_def Let_def)
  show "invocations (dispose r g) = (invocations g)(inv_uuid ?inv \<mapsto> None)" by (simp add: d)
  show "inv_iframe (invocationObjects (dispose r g) ! r) = None" using r by (simp add: d)
  have "live_iframes ?g' = live_iframes (g\<lparr>iframes := removeNode i (iframes g)\<rparr>)"
    by (simp add: live_iframes_def)
  then show "live_iframes (dispose r g) = removeAll i (live_iframes g)"
    by (simp add: d live_iframes_removeNode)
  show "testList (dispose r g) = testList g" by (simp add: d)
  show "pathTestMap (dispose r g) = pathTestMap g" by (simp add: d)
  show "test_state (dispose r g) = test_state g" by (rule test_state_cong) (simp_all add: d)
qed

lemma sample_active_eq:
  "invocations sample_active ''u1'' = Some (Some 0)"
  "invocationObjects sample_active =
     [\<lparr>inv_path = ''SMT.LED'', inv_uuid = ''u1'', inv_iframe = Some 0\<rparr>]"
  "iframes sample_active =
     [\<lparr>attached = True, body = Some [''<p>LED</p>''], evaluated = [],
       definedFunctions = [], applied = []\<rparr>]"
  "test_state sample_active ''SMT.LED'' =
     Some \<lparr>status = ''ACTIVE'', error_msg = None, count = 1\<rparr>"
  by (simp_all add: sample_active_def handleBackendEvent_def getOrCreateInvocation_def
       js_in_def js_get_def new_Invocation_def iframe_of_def update_iframe_def
       document_write_def removeChildren_def blank_iframe_def setTestState_def js_read_def
       test_state_def AUTO_COLLAPSE_def Let_def sample_goofy_def setTestList_def
       sample_testList_def sample_SMT_def sample_leaf_def new_Goofy_def Object_prototype_def)

text \<open>
  Claim C10. Disposing of a live invocation object binds its run id \<open>u\<close> to \<^verbatim>\<open>null\<close>,
  and no later input removes or replaces that binding. In every later state,
  get-or-create with \<open>u\<close> returns \<^verbatim>\<open>null\<close> and changes nothing, and a \<^verbatim>\<open>set_html\<close>,
  \<^verbatim>\<open>run_js\<close> or \<^verbatim>\<open>call_js_function\<close> event for \<open>u\<close> leaves the whole state as it was.
\<close>

theorem disposed_run_id_stays_null:
  assumes "r < length (invocationObjects g)"
    and "inv_iframe (invocationObjects g ! r) = Some i"
    and "inv_uuid (invocationObjects g ! r) = u"
    and "g' = run h inps (dispose r g)"
  shows "invocations g' u = Some None \<and>
         getOrCreateInvocation p u g' = (Null, g') \<and>
         handleBackendEvent (SetHtml p u a html) g' = Inr g' \<and>
         handleBackendEvent (RunJs p u args js) g' = Inr g' \<and>
         handleBackendEvent (CallJsFunction p u name cargs) g' = Inr g'"
proof -
  have "invocations (dispose r g) u = Some None"
    using dispose_live(1)[OF assms(1) assms(2)] assms(3) by simp
  then have null: "invocations g' u = Some None"
    unfolding assms(4) by (rule run_keeps_null)
  show ?thesis
    using null null_binding_ignored[OF null] by simp
qed

theorem disposed_run_id_stays_null_witness:
  "0 < length (invocationObjects sample_active) \<and>
   inv_iframe (invocationObjects sample_active ! 0) = Some 0 \<and>
   inv_uuid (invocationObjects sample_active ! 0) = ''u1'' \<and>
   handleBackendEvent (SetHtml ''SMT.LED'' ''u1'' False ''<p>again</p>'')
       (run digest_of_empty [Backend (Log ''done'')] (dispose 0 sample_active)) =
     Inr (run digest_of_empty [Backend (Log ''done'')] (dispose 0 sample_active))"
  using disposed_run_id_stays_null[of 0 sample_active 0 "''u1''" _ digest_of_empty
      "[Backend (Log ''done'')]" "''SMT.LED''" False "''<p>again</p>''"]
    sample_active_eq
  by simp

section \<open>Shutdown countdown: at most one\<close>

lemma countdown_inv_cong:
  "dialogs g' = dialogs g \<Longrightarrow> shutdownDialog g' = shutdownDialog g \<Longrightarrow>
   countdown_inv g' = countdown_inv g"
  by (simp add: countdown_inv_def)

lemma hide_length: "length (dialog_dispose d (setVisible_false d ds)) = length ds"
  by (simp add: dialog_dispose_def setVisible_false_def)

lemma hide_other: "i \<noteq> d \<Longrightarrow> dialog_dispose d (setVisible_false d ds) ! i = ds ! i"
  by (simp add: dialog_dispose_def setVisible_false_def)

lemma hide_same:
  assumes "d < length ds"
  shows "\<not> visible (dialog_dispose d (setVisible_false d ds) ! d)"
    and "disposed (dialog_dispose d (setVisible_false d ds) ! d)"
    and "visible (ds ! d) \<or> \<not> timerRunning (ds ! d) \<Longrightarrow>
         \<not> timerRunning (dialog_dispose d (setVisible_false d ds) ! d)"
    and "kind (dialog_dispose d (setVisible_false d ds) ! d) = kind (ds ! d)"
  using assms by (auto simp: dialog_dispose_def setVisible_false_def)

lemma hide_exact:
  assumes "d < length ds" and "visible (ds ! d) \<or> \<not> timerRunning (ds ! d)"
  shows "dialog_dispose d (setVisible_false d ds) ! d =
           (ds ! d)\<lparr>visible := False, disposed := True, timerRunning := False\<rparr>"
  using assms by (auto simp: dialog_dispose_def setVisible_false_def intro: Dialog.equality)

lemma countdown_invI:
  assumes "\<And>i. i < length (dialogs g) \<Longrightarrow>
             kind (dialogs g ! i) = ShutdownDialog \<and> visible (dialogs g ! i) \<or>
             timerRunning (dialogs g ! i) \<Longrightarrow>
             shutdownDialog g = Some i \<and> visible (dialogs g ! i)"
    and "\<And>d. shutdownDialog g = Some d \<Longrightarrow> d < length (dialogs g)"
  shows "countdown_inv g"
  unfolding countdown_inv_def using assms by blast

lemma countdown_invD:
  assumes "countdown_inv g"
  shows "i < length (dialogs g) \<Longrightarrow>
           kind (dialogs g ! i) = ShutdownDialog \<and> visible (dialogs g ! i) \<or>
           timerRunning (dialogs g ! i) \<Longrightarrow>
           shutdownDialog g = Some i \<and> visible (dialogs g ! i)"
    and "shutdownDialog g = Some d \<Longrightarrow> d < length (dialogs g)"
  using assms unfolding countdown_inv_def by blast+

lemma countdown_inv_hide:
  assumes inv: "countdown_inv g"
  shows "countdown_inv (g\<lparr>dialogs := dialog_dispose d (setVisible_false d (dialogs g))\<rparr>)"
proof (rule countdown_invI)
  let ?ds = "dialogs g" and ?ds' = "dialog_dispose d (setVisible_false d (dialogs g))"
  let ?g' = "g\<lparr>dialogs := ?ds'\<rparr>"
  have ds': "dialogs ?g' = ?ds'" and sd: "shutdownDialog ?g' = shutdownDialog g" by simp_all
  fix i
  assume "i < length (dialogs ?g')"
    and "kind (dialogs ?g' ! i) = ShutdownDialog \<and> visible (dialogs ?g' ! i) \<or>
         timerRunning (dialogs ?g' ! i)"
  then have i: "i < length ?ds"
    and a: "kind (?ds' ! i) = ShutdownDialog \<and> visible (?ds' ! i) \<or> timerRunning (?ds' ! i)"
    unfolding ds' hide_length by blast+
  have "shutdownDialog g = Some i \<and> visible (?ds' ! i)"
  proof (cases "i = d")
    case True
    have "visible (?ds ! d) \<or> \<not> timerRunning (?ds ! d)"
      using countdown_invD(1)[OF inv i] True by blast
    then have "\<not> timerRunning (?ds' ! d)" "\<not> visible (?ds' ! d)"
      using hide_same[of d ?ds] i True by blast+
    then show ?thesis using a True by blast
  next
    case False
    then have "?ds' ! i = ?ds ! i" by (rule hide_other)
    then show ?thesis using a countdown_invD(1)[OF inv i] by metis
  qed
  then show "shutdownDialog ?g' = Some i \<and> visible (dialogs ?g' ! i)"
    unfolding ds' sd .
next
  fix d'
  assume "shutdownDialog (g\<lparr>dialogs := dialog_dispose d (setVisible_false d (dialogs g))\<rparr>) = Some d'"
  then have "shutdownDialog g = Some d'" by simp
  then have "d' < length (dialogs g)" by (rule countdown_invD(2)[OF inv])
  then show "d' < length (dialogs (g\<lparr>dialogs := dialog_dispose d (setVisible_false d (dialogs g))\<rparr>))"
    by (simp add: hide_length)
qed


lemma countdown_inv_append:
  assumes inv: "countdown_inv g" and k: "kind dlg \<noteq> ShutdownDialog" and t: "\<not> timerRunning dlg"
  shows "countdown_inv (g\<lparr>dialogs := dialogs g @ [dlg]\<rparr>)"
proof (rule countdown_invI)
  let ?g' = "g\<lparr>dialogs := dialogs g @ [dlg]\<rparr>"
  have ds': "dialogs ?g' = dialogs g @ [dlg]" and sd: "shutdownDialog ?g' = shutdownDialog g"
    by simp_all
  fix i
  assume "i < length (dialogs ?g')"
    and "kind (dialogs ?g' ! i) = ShutdownDialog \<and> visible (dialogs ?g' ! i) \<or>
         timerRunning (dialogs ?g' ! i)"
  then have i: "i < Suc (length (dialogs g))"
    and a: "kind ((dialogs g @ [dlg]) ! i) = ShutdownDialog \<and> visible ((dialogs g @ [dlg]) ! i) \<or>
            timerRunning ((dialogs g @ [dlg]) ! i)"
    unfolding ds' by simp_all
  have "shutdownDialog g = Some i \<and> visible ((dialogs g @ [dlg]) ! i)"
  proof (cases "i < length (dialogs g)")
    case True
    then have "(dialogs g @ [dlg]) ! i = dialogs g ! i" by (simp add: nth_append)
    then show ?thesis using a countdown_invD(1)[OF inv True] by metis
  next
    case False
    then have "i = length (dialogs g)" using i by simp
    then have "(dialogs g @ [dlg]) ! i = dlg" by simp
    then show ?thesis using a k t by metis
  qed
  then show "shutdownDialog ?g' = Some i \<and> visible (dialogs ?g' ! i)"
    unfolding ds' sd .
next
  fix d
  assume "shutdownDialog (g\<lparr>dialogs := dialogs g @ [dlg]\<rparr>) = Some d"
  then have "shutdownDialog g = Some d" by simp
  then have "d < length (dialogs g)" by (rule countdown_invD(2)[OF inv])
  then show "d < length (dialogs (g\<lparr>dialogs := dialogs g @ [dlg]\<rparr>))" by simp
qed

lemma countdown_inv_alert: "countdown_inv g \<Longrightarrow> countdown_inv (alert m g)"
  unfolding alert_def by (rule countdown_inv_append) simp_all

lemma countdown_inv_setEngineeringMode:
  "countdown_inv (setEngineeringMode b g) = countdown_inv g"
  by (rule countdown_inv_cong) (simp_all add: setEngineeringMode_def)

lemma countdown_inv_prompt:
  assumes inv: "countdown_inv g"
  shows "countdown_inv (promptEngineeringPassword g)"
proof -
  define g1 where "g1 = (case engineeringModeDialog g of None \<Rightarrow> g
             | Some d \<Rightarrow> g\<lparr> dialogs := dialog_dispose d (setVisible_false d (dialogs g)),
                              engineeringModeDialog := None \<rparr>)"
  have g1: "countdown_inv g1"
  proof (cases "engineeringModeDialog g")
    case None
    then show ?thesis using inv by (simp add: g1_def)
  next
    case (Some d)
    have "countdown_inv (g\<lparr> dialogs := dialog_dispose d (setVisible_false d (dialogs g)),
                              engineeringModeDialog := None \<rparr>) =
          countdown_inv (g\<lparr>dialogs := dialog_dispose d (setVisible_false d (dialogs g))\<rparr>)"
      by (rule countdown_inv_cong) simp_all
    then show ?thesis using Some countdown_inv_hide[OF inv] by (simp add: g1_def)
  qed
  have app: "countdown_inv (g1\<lparr> dialogs := dialogs g1 @ [dlg], engineeringModeDialog := e \<rparr>)"
    if "kind dlg \<noteq> ShutdownDialog" "\<not> timerRunning dlg" for dlg e
  proof -
    have "countdown_inv (g1\<lparr> dialogs := dialogs g1 @ [dlg], engineeringModeDialog := e \<rparr>) =
          countdown_inv (g1\<lparr> dialogs := dialogs g1 @ [dlg]\<rparr>)"
      by (rule countdown_inv_cong) simp_all
    then show ?thesis using countdown_inv_append[OF g1 that] by simp
  qed
  have "promptEngineeringPassword g =
     (if engineeringPasswordSHA1 g1 = None \<or> engineeringPasswordSHA1 g1 = Some []
         then alert ''No password has been set.'' g1
         else if engineeringMode g1
         then setEngineeringMode False g1
         else g1\<lparr> dialogs := dialogs g1 @
                     [\<lparr> kind = PromptDialog, content = ''Password'', visible = True,
                        disposed = False,
                        dialogClasses = [''goofy-engineering-mode-dialog''],
                        timerRunning = False, shutdownInfo = None \<rparr>],
                  engineeringModeDialog := Some (length (dialogs g1)) \<rparr>)"
    unfolding promptEngineeringPassword_def Let_def g1_def ..
  moreover have "countdown_inv (alert ''No password has been set.'' g1)"
    by (rule countdown_inv_alert[OF g1])
  moreover have "countdown_inv (setEngineeringMode False g1)"
    using g1 by (simp only: countdown_inv_setEngineeringMode)
  moreover have "countdown_inv (g1\<lparr> dialogs := dialogs g1 @
                     [\<lparr> kind = PromptDialog, content = ''Password'', visible = True,
                        disposed = False,
                        dialogClasses = [''goofy-engineering-mode-dialog''],
                        timerRunning = False, shutdownInfo = None \<rparr>],
                  engineeringModeDialog := Some (length (dialogs g1)) \<rparr>)"
    by (rule app) simp_all
  ultimately show ?thesis by presburger
qed

lemma countdown_inv_closeDialog:
  assumes inv: "countdown_inv g"
  shows "countdown_inv (closeDialog g)"
proof (cases "dialog g")
  case None
  then show ?thesis using inv by (simp add: closeDialog_def)
next
  case (Some d)
  have "countdown_inv (g\<lparr> dialogs := dialog_dispose d (setVisible_false d (dialogs g)),
                            dialog := None \<rparr>) =
        countdown_inv (g\<lparr>dialogs := dialog_dispose d (setVisible_false d (dialogs g))\<rparr>)"
    by (rule countdown_inv_cong) simp_all
  then show ?thesis using Some countdown_inv_hide[OF inv] by (simp add: closeDialog_def)
qed


lemma countdown_free_iff:
  "(visible_countdowns g = [] \<and> ticking_timers g = []) \<longleftrightarrow>
   (\<forall>i < length (dialogs g).
      \<not> (kind (dialogs g ! i) = ShutdownDialog \<and> visible (dialogs g ! i)) \<and>
      \<not> timerRunning (dialogs g ! i))"
  unfolding visible_countdowns_def ticking_timers_def filter_empty_conv by auto

lemma countdown_free_hide:
  assumes "visible_countdowns g = [] \<and> ticking_timers g = []"
    and "dialogs g' = dialog_dispose d (setVisible_false d (dialogs g))"
  shows "visible_countdowns g' = [] \<and> ticking_timers g' = []"
proof -
  have free: "\<not> (kind (dialogs g ! i) = ShutdownDialog \<and> visible (dialogs g ! i)) \<and>
              \<not> timerRunning (dialogs g ! i)" if "i < length (dialogs g)" for i
    using assms(1) that unfolding countdown_free_iff by blast
  have "\<not> (kind (dialogs g' ! i) = ShutdownDialog \<and> visible (dialogs g' ! i)) \<and>
        \<not> timerRunning (dialogs g' ! i)" if "i < length (dialogs g')" for i
  proof (cases "i = d")
    case True
    have d: "d < length (dialogs g)" using that True by (simp add: assms(2) hide_length)
    show ?thesis using hide_same[OF d] free[OF d] True by (simp add: assms(2))
  next
    case False
    have i: "i < length (dialogs g)" using that by (simp add: assms(2) hide_length)
    show ?thesis using hide_other[OF False] free[OF i] by (simp add: assms(2))
  qed
  then show ?thesis unfolding countdown_free_iff by blast
qed

lemma clear_old_countdown:
  assumes inv: "countdown_inv g"
    and g1: "g1 = (case shutdownDialog g of
                     None \<Rightarrow> g
                   | Some d \<Rightarrow>
                       g\<lparr> dialogs := dialog_dispose d (setVisible_false d (dialogs g)),
                          shutdownDialog := None \<rparr>)"
  shows "shutdownDialog g1 = None"
    and "length (dialogs g1) = length (dialogs g)"
    and "visible_countdowns g1 = [] \<and> ticking_timers g1 = []"
    and "shutdownDialog g = Some d \<Longrightarrow>
           \<not> visible (dialogs g1 ! d) \<and> disposed (dialogs g1 ! d) \<and>
           \<not> timerRunning (dialogs g1 ! d)"
proof -
  show "shutdownDialog g1 = None" by (simp add: g1 split: option.splits)
  show len: "length (dialogs g1) = length (dialogs g)"
    by (simp add: g1 hide_length split: option.splits)
  have old: "\<not> visible (dialogs g1 ! d) \<and> disposed (dialogs g1 ! d) \<and>
             \<not> timerRunning (dialogs g1 ! d)" if sd: "shutdownDialog g = Some d" for d
  proof -
    have d: "d < length (dialogs g)" by (rule countdown_invD(2)[OF inv sd])
    have "visible (dialogs g ! d) \<or> \<not> timerRunning (dialogs g ! d)"
      using countdown_invD(1)[OF inv d] by blast
    then show ?thesis using hide_same[OF d] sd by (simp add: g1)
  qed
  then show "shutdownDialog g = Some d \<Longrightarrow>
           \<not> visible (dialogs g1 ! d) \<and> disposed (dialogs g1 ! d) \<and>
           \<not> timerRunning (dialogs g1 ! d)" .
  have "\<not> (kind (dialogs g1 ! i) = ShutdownDialog \<and> visible (dialogs g1 ! i)) \<and>
        \<not> timerRunning (dialogs g1 ! i)" if i1: "i < length (dialogs g1)" for i
  proof -
    have i: "i < length (dialogs g)" using i1 len by simp
    show ?thesis
    proof (cases "shutdownDialog g = Some i")
      case True
      then show ?thesis using old by blast
    next
      case False
      then have "dialogs g1 ! i = dialogs g ! i"
        by (auto simp: g1 hide_other split: option.splits)
      then show ?thesis using countdown_invD(1)[OF inv i] False by metis
    qed
  qed
  then show "visible_countdowns g1 = [] \<and> ticking_timers g1 = []"
    unfolding countdown_free_iff by blast
qed


lemma at_most_one:
  assumes "distinct xs" and "\<And>x. x \<in> set xs \<Longrightarrow> v = Some x"
  shows "length xs \<le> 1"
proof (cases v)
  case None
  then have "set xs = {}" using assms(2) by fastforce
  then show ?thesis by simp
next
  case (Some d)
  then have "set xs \<subseteq> {d}" using assms(2) by fastforce
  then have "card (set xs) \<le> card {d}" by (intro card_mono) simp_all
  then show ?thesis using assms(1) by (simp add: distinct_card)
qed

lemma countdown_inv_at_most_one:
  assumes inv: "countdown_inv g"
  shows "length (visible_countdowns g) \<le> 1" and "length (ticking_timers g) \<le> 1"
proof -
  show "length (visible_countdowns g) \<le> 1"
  proof (rule at_most_one[where v = "shutdownDialog g"])
    show "distinct (visible_countdowns g)" by (simp add: visible_countdowns_def)
    fix x assume "x \<in> set (visible_countdowns g)"
    then have "x < length (dialogs g)"
      and "kind (dialogs g ! x) = ShutdownDialog \<and> visible (dialogs g ! x)"
      by (simp_all add: visible_countdowns_def)
    then show "shutdownDialog g = Some x" using countdown_invD(1)[OF inv] by blast
  qed
  show "length (ticking_timers g) \<le> 1"
  proof (rule at_most_one[where v = "shutdownDialog g"])
    show "distinct (ticking_timers g)" by (simp add: ticking_timers_def)
    fix x assume "x \<in> set (ticking_timers g)"
    then have "x < length (dialogs g)" and "timerRunning (dialogs g ! x)"
      by (simp_all add: ticking_timers_def)
    then show "shutdownDialog g = Some x" using countdown_invD(1)[OF inv] by blast
  qed
qed

lemma countdown_inv_free:
  assumes "visible_countdowns g = [] \<and> ticking_timers g = []" and "shutdownDialog g = None"
  shows "countdown_inv g"
proof (rule countdown_invI)
  fix i
  assume "i < length (dialogs g)"
    and "kind (dialogs g ! i) = ShutdownDialog \<and> visible (dialogs g ! i) \<or>
         timerRunning (dialogs g ! i)"
  then show "shutdownDialog g = Some i \<and> visible (dialogs g ! i)"
    using assms(1) unfolding countdown_free_iff by blast
next
  fix d assume "shutdownDialog g = Some d"
  then show "d < length (dialogs g)" using assms(2) by simp
qed

lemma countdown_inv_new:
  assumes free: "visible_countdowns g = [] \<and> ticking_timers g = []"
    and dlg: "visible dlg"
  shows "countdown_inv (g\<lparr>dialogs := dialogs g @ [dlg], shutdownDialog := Some (length (dialogs g))\<rparr>)"
proof (rule countdown_invI)
  let ?g' = "g\<lparr>dialogs := dialogs g @ [dlg], shutdownDialog := Some (length (dialogs g))\<rparr>"
  have ds': "dialogs ?g' = dialogs g @ [dlg]"
    and sd: "shutdownDialog ?g' = Some (length (dialogs g))" by simp_all
  fix i
  assume "i < length (dialogs ?g')"
    and "kind (dialogs ?g' ! i) = ShutdownDialog \<and> visible (dialogs ?g' ! i) \<or>
         timerRunning (dialogs ?g' ! i)"
  then have i: "i < Suc (length (dialogs g))"
    and a: "kind ((dialogs g @ [dlg]) ! i) = ShutdownDialog \<and> visible ((dialogs g @ [dlg]) ! i) \<or>
            timerRunning ((dialogs g @ [dlg]) ! i)"
    unfolding ds' by simp_all
  have "i = length (dialogs g)"
  proof (rule ccontr)
    assume "i \<noteq> length (dialogs g)"
    then have lt: "i < length (dialogs g)" using i by simp
    then have "(dialogs g @ [dlg]) ! i = dialogs g ! i" by (simp add: nth_append)
    then show False using a free lt unfolding countdown_free_iff by metis
  qed
  then show "shutdownDialog ?g' = Some i \<and> visible (dialogs ?g' ! i)"
    unfolding ds' sd using dlg by simp
next
  fix d
  assume "shutdownDialog (g\<lparr>dialogs := dialogs g @ [dlg], shutdownDialog := Some (length (dialogs g))\<rparr>) = Some d"
  then show "d < length (dialogs (g\<lparr>dialogs := dialogs g @ [dlg], shutdownDialog := Some (length (dialogs g))\<rparr>))"
    by auto
qed

lemma setPendingShutdown_unfold:
  assumes g1: "g1 = (case shutdownDialog g of
                     None \<Rightarrow> g
                   | Some d \<Rightarrow>
                       g\<lparr> dialogs := dialog_dispose d (setVisible_false d (dialogs g)),
                          shutdownDialog := None \<rparr>)"
  shows "setPendingShutdown info g =
     (if js_not (time info) then g1
      else (closeDialog g1)\<lparr> dialogs := dialogs (closeDialog g1) @
                         [\<lparr> kind = ShutdownDialog, content = shutdownContent info,
                            visible = True, disposed = False,
                            dialogClasses = [''goofy-shutdown-dialog''],
                            timerRunning = True, shutdownInfo = Some info \<rparr>],
                       shutdownDialog := Some (length (dialogs (closeDialog g1))) \<rparr>)"
  unfolding setPendingShutdown_def Let_def g1 ..

lemma closeDialog_free:
  assumes "visible_countdowns g = [] \<and> ticking_timers g = []"
  shows "visible_countdowns (closeDialog g) = [] \<and> ticking_timers (closeDialog g) = []"
proof (cases "dialog g")
  case None
  then show ?thesis using assms by (simp add: closeDialog_def)
next
  case (Some d)
  show ?thesis
    by (rule countdown_free_hide[OF assms, of _ d]) (simp add: closeDialog_def Some)
qed

lemma countdown_inv_setPendingShutdown:
  assumes inv: "countdown_inv g"
  shows "countdown_inv (setPendingShutdown info g)"
proof -
  define g1 where "g1 = (case shutdownDialog g of
                     None \<Rightarrow> g
                   | Some d \<Rightarrow>
                       g\<lparr> dialogs := dialog_dispose d (setVisible_false d (dialogs g)),
                          shutdownDialog := None \<rparr>)"
  note c = clear_old_countdown[OF inv g1_def]
  have inv1: "countdown_inv g1" by (rule countdown_inv_free[OF c(3) c(1)])
  have "countdown_inv ((closeDialog g1)\<lparr> dialogs := dialogs (closeDialog g1) @
                         [\<lparr> kind = ShutdownDialog, content = shutdownContent info,
                            visible = True, disposed = False,
                            dialogClasses = [''goofy-shutdown-dialog''],
                            timerRunning = True, shutdownInfo = Some info \<rparr>],
                       shutdownDialog := Some (length (dialogs (closeDialog g1))) \<rparr>)"
    by (rule countdown_inv_new[OF closeDialog_free[OF c(3)]]) simp
  then show ?thesis
    unfolding setPendingShutdown_unfold[OF g1_def] using inv1 by presburger
qed


lemma getOrCreate_dialogs:
  "dialogs (snd (getOrCreateInvocation p u g)) = dialogs g"
  "shutdownDialog (snd (getOrCreateInvocation p u g)) = shutdownDialog g"
  by (simp_all add: getOrCreateInvocation_def Let_def new_Invocation_def)

lemma dispose_dialogs:
  "dialogs (dispose r g) = dialogs g" "shutdownDialog (dispose r g) = shutdownDialog g"
  by (simp_all add: dispose_def Let_def split: option.splits)

lemma countdown_inv_handle:
  assumes inv: "countdown_inv g" and h: "handleBackendEvent m g = Inr g'"
  shows "countdown_inv g'"
proof (cases m)
  case (PendingShutdown info)
  then show ?thesis using h countdown_inv_setPendingShutdown[OF inv, of info]
    by (simp add: handleBackendEvent_def)
next
  case (StateChange p st)
  then have "setTestState p st g = Inr g'" using h by (simp add: handleBackendEvent_def)
  then have "countdown_inv g' = countdown_inv g"
    using setTestState_frame[of p st g g'] by (intro countdown_inv_cong) simp_all
  then show ?thesis using inv by simp
next
  case (SetHtml p u a html)
  have "countdown_inv g' = countdown_inv g"
    using h getOrCreate_dialogs[of p u g] unfolding SetHtml
    by (intro countdown_inv_cong)
       (auto simp: handleBackendEvent_def update_iframe_def
             split: prod.splits sum.splits option.splits)
  then show ?thesis using inv by simp
next
  case (RunJs p u a js)
  have "countdown_inv g' = countdown_inv g"
    using h getOrCreate_dialogs[of p u g] unfolding RunJs
    by (intro countdown_inv_cong)
       (auto simp: handleBackendEvent_def update_iframe_def
             split: prod.splits sum.splits option.splits)
  then show ?thesis using inv by simp
next
  case (CallJsFunction p u name a)
  have "countdown_inv g' = countdown_inv g"
    using h getOrCreate_dialogs[of p u g] unfolding CallJsFunction
    by (intro countdown_inv_cong)
       (auto simp: handleBackendEvent_def update_iframe_def
             split: prod.splits sum.splits option.splits)
  then show ?thesis using inv by simp
next
  case (DestroyTest u)
  have "countdown_inv g' = countdown_inv g"
    using h unfolding DestroyTest
    by (intro countdown_inv_cong)
       (auto simp: handleBackendEvent_def dispose_dialogs split: property.splits)
  then show ?thesis using inv by simp
next
  case (Hello u)
  have "countdown_inv g' = countdown_inv g"
    using h unfolding Hello
    by (intro countdown_inv_cong)
       (auto simp: handleBackendEvent_def keepAlive_def sendEvent_def split: if_splits)
  then show ?thesis using inv by simp
next
  case (Log l)
  have "countdown_inv g' = countdown_inv g"
    using h unfolding Log
    by (intro countdown_inv_cong) (auto simp: handleBackendEvent_def logToConsole_def)
  then show ?thesis using inv by simp
next
  case (SystemInfo si)
  have "countdown_inv g' = countdown_inv g"
    using h unfolding SystemInfo
    by (intro countdown_inv_cong) (auto simp: handleBackendEvent_def setSystemInfo_def)
  then show ?thesis using inv by simp
next
  case (OtherEvent ty)
  then show ?thesis using h inv by (simp add: handleBackendEvent_def)
qed

lemma menuChoice_dialogs:
  "dialogs (menuChoice p k g) = dialogs g" "shutdownDialog (menuChoice p k g) = shutdownDialog g"
  by (auto simp: menuChoice_def showTestPopup_def menuHidden_def selectItem_def
          sendEvent_def Let_def
          split: prod.splits sum.splits property.splits option.splits MenuEntry.splits)

lemma countdown_inv_step:
  assumes inv: "countdown_inv g"
  shows "countdown_inv (step h inp g)"
proof (cases inp)
  case (Backend m)
  then show ?thesis using inv countdown_inv_handle[OF inv, of m]
    by (auto simp: step_def split: sum.splits)
next
  case (TestListReply t)
  have "countdown_inv (setTestList t g) = countdown_inv g"
    by (rule countdown_inv_cong) (simp_all add: setTestList_def addToNode_frame)
  then show ?thesis using inv TestListReply by (simp add: step_def)
next
  case SocketOpened
  have "countdown_inv (ws_OPENED g) = countdown_inv g"
    by (rule countdown_inv_cong) (simp_all add: socket_frame)
  then show ?thesis using inv SocketOpened by (simp add: step_def)
next
  case SocketError
  have "countdown_inv (ws_ERROR g) = countdown_inv g"
    by (rule countdown_inv_cong) (simp_all add: socket_frame)
  then show ?thesis using inv SocketError by (simp add: step_def)
next
  case SocketClosed
  have "countdown_inv (ws_CLOSED g) = countdown_inv g"
    by (rule countdown_inv_cong) (simp_all add: socket_frame)
  then show ?thesis using inv SocketClosed by (simp add: step_def)
next
  case KeepAliveTimer
  have "countdown_inv (keepAlive g) = countdown_inv g"
    by (rule countdown_inv_cong) (simp_all add: socket_frame)
  then show ?thesis using inv KeepAliveTimer by (simp add: step_def)
next
  case (TestStatesReply stateMap)
  have "countdown_inv (setTestStates stateMap g) = countdown_inv g"
    by (rule countdown_inv_cong) (simp_all add: setTestStates_frame)
  then show ?thesis using inv TestStatesReply by (simp add: step_def)
next
  case (SystemInfoReply systemInfo)
  have "countdown_inv (setSystemInfo systemInfo g) = countdown_inv g"
    by (rule countdown_inv_cong) (simp_all add: socket_frame)
  then show ?thesis using inv SystemInfoReply by (simp add: step_def)
next
  case (TestListOptionsReply hash)
  have "countdown_inv (testListOptions hash g) = countdown_inv g"
    by (rule countdown_inv_cong) (simp_all add: testListOptions_def setEngineeringMode_def)
  then show ?thesis using inv TestListOptionsReply by (simp add: step_def)
next
  case CtrlAlt0
  then show ?thesis using countdown_inv_prompt[OF inv] by (simp add: step_def)
next
  case (PasswordText entered)
  have "countdown_inv (passwordEntered h entered g)"
    using inv countdown_inv_alert[OF inv] countdown_inv_setEngineeringMode[of True g]
    by (simp add: passwordEntered_def split: option.splits)
  then show ?thesis using PasswordText by (simp add: step_def)
next
  case EscapeKey
  have "countdown_inv (onKey True g) = countdown_inv g"
    by (rule countdown_inv_cong) (simp_all add: onKey_def sendEvent_def)
  then show ?thesis using inv EscapeKey by (simp add: step_def)
next
  case (MenuChoice p k)
  have "countdown_inv (menuChoice p k g) = countdown_inv g"
    by (rule countdown_inv_cong) (simp_all add: menuChoice_dialogs)
  then show ?thesis using inv MenuChoice by (simp add: step_def)
next
  case (SandboxPass r)
  have "countdown_inv (Test_pass r g) = countdown_inv g"
    by (rule countdown_inv_cong)
       (simp_all add: Test_pass_def Let_def dispose_dialogs sendEvent_def)
  then show ?thesis using inv SandboxPass by (simp add: step_def)
next
  case (SandboxFail r msg)
  have "countdown_inv (Test_fail r msg g) = countdown_inv g"
    by (rule countdown_inv_cong)
       (simp_all add: Test_fail_def Let_def dispose_dialogs sendEvent_def)
  then show ?thesis using inv SandboxFail by (simp add: step_def)
next
  case (SandboxTestEvent r subtype data)
  have "countdown_inv (Test_sendTestEvent r subtype data g) = countdown_inv g"
    by (rule countdown_inv_cong) (simp_all add: Test_sendTestEvent_def Let_def sendEvent_def)
  then show ?thesis using inv SandboxTestEvent by (simp add: step_def)
qed

lemma countdown_inv_run:
  "countdown_inv g \<Longrightarrow> countdown_inv (run h inps g)"
  by (induction inps arbitrary: g) (simp_all add: countdown_inv_step)

lemma countdown_inv_new_Goofy: "countdown_inv (new_Goofy b)"
  by (simp add: countdown_inv_def new_Goofy_def)


lemma hidden_stays_hidden:
  assumes "d < length ds"
    and "\<not> visible (ds ! d) \<and> disposed (ds ! d) \<and> \<not> timerRunning (ds ! d)"
  shows "\<not> visible (dialog_dispose d' (setVisible_false d' ds) ! d) \<and>
         disposed (dialog_dispose d' (setVisible_false d' ds) ! d) \<and>
         \<not> timerRunning (dialog_dispose d' (setVisible_false d' ds) ! d)"
proof (cases "d = d'")
  case True
  then show ?thesis using hide_same[OF assms(1)] assms(2) by blast
next
  case False
  then show ?thesis using hide_other[of d d' ds] assms(2) by simp
qed

lemma closeDialog_dialogs:
  "length (dialogs (closeDialog g)) = length (dialogs g)"
  "d < length (dialogs g) \<Longrightarrow>
   \<not> visible (dialogs g ! d) \<and> disposed (dialogs g ! d) \<and> \<not> timerRunning (dialogs g ! d) \<Longrightarrow>
   \<not> visible (dialogs (closeDialog g) ! d) \<and> disposed (dialogs (closeDialog g) ! d) \<and>
   \<not> timerRunning (dialogs (closeDialog g) ! d)"
proof -
  show "length (dialogs (closeDialog g)) = length (dialogs g)"
    by (simp add: closeDialog_def hide_length split: option.splits)
  assume d: "d < length (dialogs g)"
    and h: "\<not> visible (dialogs g ! d) \<and> disposed (dialogs g ! d) \<and> \<not> timerRunning (dialogs g ! d)"
  show "\<not> visible (dialogs (closeDialog g) ! d) \<and> disposed (dialogs (closeDialog g) ! d) \<and>
        \<not> timerRunning (dialogs (closeDialog g) ! d)"
  proof (cases "dialog g")
    case None
    then show ?thesis using h by (simp add: closeDialog_def)
  next
    case (Some d')
    then show ?thesis using hidden_stays_hidden[OF d h, of d'] by (simp add: closeDialog_def)
  qed
qed

text \<open>
  Claim C8. In every state that the controller reaches from its start, at most one
  countdown dialog is on screen and at most one countdown timer ticks. Handling a
  \<^verbatim>\<open>pending_shutdown\<close> event keeps that; the dialog that \<^verbatim>\<open>shutdownDialog\<close> referred to is
  afterwards hidden and disposed and its timer is stopped. When the event carries no
  target time (or one that is falsy), no countdown is on screen afterwards and no
  dialog was created; the dialog that \<^verbatim>\<open>shutdownDialog\<close> referred to is as before but
  for being hidden, disposed and without timer, every other dialog is as before, and
  the rest of the state but \<^verbatim>\<open>shutdownDialog\<close>, now \<^verbatim>\<open>null\<close>, is unchanged; with no
  countdown before, the state is unchanged.
\<close>

theorem at_most_one_countdown:
  assumes "g = run h inps (new_Goofy b)"
  shows "length (visible_countdowns g) \<le> 1 \<and> length (ticking_timers g) \<le> 1 \<and>
         (\<exists>g'. handleBackendEvent (PendingShutdown info) g = Inr g' \<and>
            length (visible_countdowns g') \<le> 1 \<and> length (ticking_timers g') \<le> 1 \<and>
            (\<forall>d. shutdownDialog g = Some d \<longrightarrow>
                 \<not> visible (dialogs g' ! d) \<and> disposed (dialogs g' ! d) \<and>
                 \<not> timerRunning (dialogs g' ! d)) \<and>
            (js_not (time info) \<longrightarrow>
               visible_countdowns g' = [] \<and> ticking_timers g' = [] \<and>
               shutdownDialog g' = None \<and> length (dialogs g') = length (dialogs g) \<and>
               g' = g\<lparr>dialogs := dialogs g', shutdownDialog := None\<rparr> \<and>
               (\<forall>i. shutdownDialog g \<noteq> Some i \<longrightarrow> dialogs g' ! i = dialogs g ! i) \<and>
               (\<forall>d. shutdownDialog g = Some d \<longrightarrow>
                    dialogs g' ! d =
                      (dialogs g ! d)\<lparr>visible := False, disposed := True,
                                       timerRunning := False\<rparr>) \<and>
               (shutdownDialog g = None \<longrightarrow> g' = g)))"
proof -
  have inv: "countdown_inv g"
    unfolding assms by (rule countdown_inv_run[OF countdown_inv_new_Goofy])
  define g1 where "g1 = (case shutdownDialog g of
                     None \<Rightarrow> g
                   | Some d \<Rightarrow>
                       g\<lparr> dialogs := dialog_dispose d (setVisible_false d (dialogs g)),
                          shutdownDialog := None \<rparr>)"
  note c = clear_old_countdown[OF inv g1_def]
  let ?g' = "setPendingShutdown info g"
  have inv': "countdown_inv ?g'" by (rule countdown_inv_setPendingShutdown[OF inv])
  have old: "\<not> visible (dialogs ?g' ! d) \<and> disposed (dialogs ?g' ! d) \<and>
             \<not> timerRunning (dialogs ?g' ! d)" if sd: "shutdownDialog g = Some d" for d
  proof (cases "js_not (time info)")
    case True
    then show ?thesis using c(4)[OF sd] by (simp add: setPendingShutdown_unfold[OF g1_def])
  next
    case False
    have d: "d < length (dialogs g1)"
      using countdown_invD(2)[OF inv sd] c(2) by simp
    have "\<not> visible (dialogs (closeDialog g1) ! d) \<and> disposed (dialogs (closeDialog g1) ! d) \<and>
          \<not> timerRunning (dialogs (closeDialog g1) ! d)"
      by (rule closeDialog_dialogs(2)[OF d c(4)[OF sd]])
    moreover have "d < length (dialogs (closeDialog g1))"
      using d by (simp add: closeDialog_dialogs(1))
    ultimately show ?thesis
      using False by (auto simp: setPendingShutdown_unfold[OF g1_def] nth_append)
  qed
  have others: "dialogs g1 ! i = dialogs g ! i" if "shutdownDialog g \<noteq> Some i" for i
  proof (cases "shutdownDialog g")
    case None
    then show ?thesis by (simp add: g1_def)
  next
    case (Some d)
    then have "i \<noteq> d" using that by simp
    then show ?thesis using Some by (simp add: g1_def hide_other)
  qed
  have same: "dialogs g1 ! d =
                (dialogs g ! d)\<lparr>visible := False, disposed := True, timerRunning := False\<rparr>"
    if sd: "shutdownDialog g = Some d" for d
  proof -
    have d: "d < length (dialogs g)" by (rule countdown_invD(2)[OF inv sd])
    have "visible (dialogs g ! d) \<or> \<not> timerRunning (dialogs g ! d)"
      using countdown_invD(1)[OF inv d] by blast
    then show ?thesis using hide_exact[OF d] sd by (simp add: g1_def)
  qed
  have unchanged: "g1 = g" if "shutdownDialog g = None"
    using that by (simp add: g1_def)
  have none: "visible_countdowns ?g' = [] \<and> ticking_timers ?g' = [] \<and>
              shutdownDialog ?g' = None \<and> length (dialogs ?g') = length (dialogs g) \<and>
              ?g' = g\<lparr>dialogs := dialogs ?g', shutdownDialog := None\<rparr> \<and>
              (\<forall>i. shutdownDialog g \<noteq> Some i \<longrightarrow> dialogs ?g' ! i = dialogs g ! i) \<and>
              (\<forall>d. shutdownDialog g = Some d \<longrightarrow>
                   dialogs ?g' ! d =
                     (dialogs g ! d)\<lparr>visible := False, disposed := True,
                                      timerRunning := False\<rparr>) \<and>
              (shutdownDialog g = None \<longrightarrow> ?g' = g)"
    if "js_not (time info)"
  proof -
    have eq: "?g' = g1" using that by (simp add: setPendingShutdown_unfold[OF g1_def])
    have upd: "g1 = g\<lparr>dialogs := dialogs g1, shutdownDialog := None\<rparr>"
      by (simp add: g1_def split: option.splits)
    show ?thesis unfolding eq
    proof (intro conjI allI impI)
      show "visible_countdowns g1 = []" using c(3) by (rule conjunct1)
      show "ticking_timers g1 = []" using c(3) by (rule conjunct2)
      show "shutdownDialog g1 = None" by (rule c(1))
      show "length (dialogs g1) = length (dialogs g)" by (rule c(2))
      show "g1 = g\<lparr>dialogs := dialogs g1, shutdownDialog := None\<rparr>" by (rule upd)
      show "dialogs g1 ! i = dialogs g ! i" if "shutdownDialog g \<noteq> Some i" for i
        using that by (rule others)
      show "dialogs g1 ! d =
              (dialogs g ! d)\<lparr>visible := False, disposed := True, timerRunning := False\<rparr>"
        if "shutdownDialog g = Some d" for d
        using that by (rule same)
      show "g1 = g" if "shutdownDialog g = None"
        using that by (rule unchanged)
    qed
  qed
  have ev: "handleBackendEvent (PendingShutdown info) g = Inr ?g'"
    by (simp add: handleBackendEvent_def)
  have after: "handleBackendEvent (PendingShutdown info) g = Inr ?g' \<and>
            length (visible_countdowns ?g') \<le> 1 \<and> length (ticking_timers ?g') \<le> 1 \<and>
            (\<forall>d. shutdownDialog g = Some d \<longrightarrow>
                 \<not> visible (dialogs ?g' ! d) \<and> disposed (dialogs ?g' ! d) \<and>
                 \<not> timerRunning (dialogs ?g' ! d)) \<and>
            (js_not (time info) \<longrightarrow>
               visible_countdowns ?g' = [] \<and> ticking_timers ?g' = [] \<and>
               shutdownDialog ?g' = None \<and> length (dialogs ?g') = length (dialogs g) \<and>
               ?g' = g\<lparr>dialogs := dialogs ?g', shutdownDialog := None\<rparr> \<and>
               (\<forall>i. shutdownDialog g \<noteq> Some i \<longrightarrow> dialogs ?g' ! i = dialogs g ! i) \<and>
               (\<forall>d. shutdownDialog g = Some d \<longrightarrow>
                    dialogs ?g' ! d =
                      (dialogs g ! d)\<lparr>visible := False, disposed := True,
                                       timerRunning := False\<rparr>) \<and>
               (shutdownDialog g = None \<longrightarrow> ?g' = g))"
  proof (intro conjI)
    show "handleBackendEvent (PendingShutdown info) g = Inr ?g'" by (rule ev)
    show "length (visible_countdowns ?g') \<le> 1" by (rule countdown_inv_at_most_one(1)[OF inv'])
    show "length (ticking_timers ?g') \<le> 1" by (rule countdown_inv_at_most_one(2)[OF inv'])
    show "\<forall>d. shutdownDialog g = Some d \<longrightarrow>
                 \<not> visible (dialogs ?g' ! d) \<and> disposed (dialogs ?g' ! d) \<and>
                 \<not> timerRunning (dialogs ?g' ! d)"
      using old by blast
    show "js_not (time info) \<longrightarrow>
               visible_countdowns ?g' = [] \<and> ticking_timers ?g' = [] \<and>
               shutdownDialog ?g' = None \<and> length (dialogs ?g') = length (dialogs g) \<and>
               ?g' = g\<lparr>dialogs := dialogs ?g', shutdownDialog := None\<rparr> \<and>
               (\<forall>i. shutdownDialog g \<noteq> Some i \<longrightarrow> dialogs ?g' ! i = dialogs g ! i) \<and>
               (\<forall>d. shutdownDialog g = Some d \<longrightarrow>
                    dialogs ?g' ! d =
                      (dialogs g ! d)\<lparr>visible := False, disposed := True,
                                       timerRunning := False\<rparr>) \<and>
               (shutdownDialog g = None \<longrightarrow> ?g' = g)"
      using none by (rule impI)
  qed
  show ?thesis
  proof (intro conjI)
    show "length (visible_countdowns g) \<le> 1" by (rule countdown_inv_at_most_one(1)[OF inv])
    show "length (ticking_timers g) \<le> 1" by (rule countdown_inv_at_most_one(2)[OF inv])
    show "\<exists>g'. handleBackendEvent (PendingShutdown info) g = Inr g' \<and>
            length (visible_countdowns g') \<le> 1 \<and> length (ticking_timers g') \<le> 1 \<and>
            (\<forall>d. shutdownDialog g = Some d \<longrightarrow>
                 \<not> visible (dialogs g' ! d) \<and> disposed (dialogs g' ! d) \<and>
                 \<not> timerRunning (dialogs g' ! d)) \<and>
            (js_not (time info) \<longrightarrow>
               visible_countdowns g' = [] \<and> ticking_timers g' = [] \<and>
               shutdownDialog g' = None \<and> length (dialogs g') = length (dialogs g) \<and>
               g' = g\<lparr>dialogs := dialogs g', shutdownDialog := None\<rparr> \<and>
               (\<forall>i. shutdownDialog g \<noteq> Some i \<longrightarrow> dialogs g' ! i = dialogs g ! i) \<and>
               (\<forall>d. shutdownDialog g = Some d \<longrightarrow>
                    dialogs g' ! d =
                      (dialogs g ! d)\<lparr>visible := False, disposed := True,
                                       timerRunning := False\<rparr>) \<and>
               (shutdownDialog g = None \<longrightarrow> g' = g))"
      by (rule exI[where x = "setPendingShutdown info g"]) (rule after)
  qed
qed

lemma sample_countdown:
  "visible_countdowns (run digest_of_empty [Backend (PendingShutdown sample_shutdown)] (new_Goofy True)) = [0]"
  by (simp add: visible_countdowns_def step_def handleBackendEvent_def setPendingShutdown_def
        closeDialog_def sample_shutdown_def new_Goofy_def Let_def)

theorem at_most_one_countdown_witness:
  "visible_countdowns
     (run digest_of_empty [Backend (PendingShutdown sample_shutdown)] (new_Goofy True)) = [0] \<and>
   (\<exists>g'. handleBackendEvent (PendingShutdown (sample_shutdown\<lparr>time := None\<rparr>))
           (run digest_of_empty [CtrlAlt0, Backend (PendingShutdown sample_shutdown)]
              (new_Goofy True)) =
         Inr g' \<and>
         visible_countdowns g' = [] \<and> shutdownDialog g' = None \<and> length (dialogs g') = 2 \<and>
         dialogs g' ! 0 =
           \<lparr> kind = PromptDialog, content = ''Password'', visible = True,
             disposed = False, dialogClasses = [''goofy-engineering-mode-dialog''],
             timerRunning = False, shutdownInfo = None \<rparr> \<and>
         dialogs g' ! 1 =
           \<lparr> kind = ShutdownDialog, content = shutdownContent sample_shutdown,
             visible = False, disposed = True,
             dialogClasses = [''goofy-shutdown-dialog''],
             timerRunning = False, shutdownInfo = Some sample_shutdown \<rparr>)"
proof -
  let ?g = "run digest_of_empty [CtrlAlt0, Backend (PendingShutdown sample_shutdown)]
              (new_Goofy True)"
  have g: "dialogs ?g =
             [\<lparr> kind = PromptDialog, content = ''Password'', visible = True,
                disposed = False, dialogClasses = [''goofy-engineering-mode-dialog''],
                timerRunning = False, shutdownInfo = None \<rparr>,
              \<lparr> kind = ShutdownDialog, content = shutdownContent sample_shutdown,
                visible = True, disposed = False,
                dialogClasses = [''goofy-shutdown-dialog''],
                timerRunning = True, shutdownInfo = Some sample_shutdown \<rparr>]"
    "shutdownDialog ?g = Some 1"
    by (simp_all add: step_def handleBackendEvent_def setPendingShutdown_def
        promptEngineeringPassword_def alert_def
        closeDialog_def sample_shutdown_def new_Goofy_def Let_def)
  show ?thesis
    using at_most_one_countdown[OF refl, of digest_of_empty
        "[CtrlAlt0, Backend (PendingShutdown sample_shutdown)]" True
        "sample_shutdown\<lparr>time := None\<rparr>"]
      sample_countdown g
    by auto
qed

section \<open>Shutdown countdown: what a tick shows\<close>













section \<open>Session reconciliation\<close>

text \<open>
  Claim C1. A \<^verbatim>\<open>hello\<close> event comes in through the \<^verbatim>\<open>MESSAGE\<close> listener of the socket, so
  the socket is open when it is handled; and a session id is a non-empty string, so
  the recorded id, if there is one, is not empty. Then: when a session id is recorded
  and the id of the event differs from it, the page is reloaded and nothing else
  changes, so no event is sent. Otherwise the id of the event becomes the recorded
  one, one keepalive event carrying that id is sent, and nothing else changes.
\<close>

theorem hello_reconciles_session:
  assumes "ws_isOpen g" and "uuid g \<noteq> Some []"
  shows "(uuid g \<noteq> None \<and> m \<noteq> uuid g \<longrightarrow>
            handleBackendEvent (Hello m) g = Inr (g\<lparr>reloads := reloads g + 1\<rparr>)) \<and>
         (uuid g = None \<or> m = uuid g \<longrightarrow>
            handleBackendEvent (Hello m) g =
              Inr (g\<lparr> uuid := m,
                      ws_sent := ws_sent g @
                        [[(''uuid'', json_of_uuid m),
                          (''type'', JString ''goofy:keepalive'')]] \<rparr>))"
  using assms by (auto simp: handleBackendEvent_def keepAlive_def sendEvent_def)

theorem hello_reconciles_session_witness:
  "ws_isOpen (new_Goofy True) \<and> uuid (new_Goofy True) = None \<and>
   handleBackendEvent (Hello (Some ''a'')) (new_Goofy True) =
     Inr ((new_Goofy True)
            \<lparr> uuid := Some ''a'',
              ws_sent := [[(''uuid'', JString ''a''), (''type'', JString ''goofy:keepalive'')]] \<rparr>) \<and>
   handleBackendEvent (Hello (Some ''b'')) (handleAll [Hello (Some ''a'')] (new_Goofy True)) =
     Inr ((handleAll [Hello (Some ''a'')] (new_Goofy True))\<lparr>reloads := 1\<rparr>)"
proof -
  have start: "ws_isOpen (new_Goofy True)" "uuid (new_Goofy True) = None"
    "ws_sent (new_Goofy True) = []"
    by (simp_all add: new_Goofy_def)
  have first: "handleBackendEvent (Hello (Some ''a'')) (new_Goofy True) =
     Inr ((new_Goofy True)
            \<lparr> uuid := Some ''a'',
              ws_sent := [[(''uuid'', JString ''a''), (''type'', JString ''goofy:keepalive'')]] \<rparr>)"
    using hello_reconciles_session[of "new_Goofy True" "Some ''a''"] start
    by (simp add: json_of_uuid_def)
  have after: "ws_isOpen (handleAll [Hello (Some ''a'')] (new_Goofy True))"
    "uuid (handleAll [Hello (Some ''a'')] (new_Goofy True)) = Some ''a''"
    "reloads (handleAll [Hello (Some ''a'')] (new_Goofy True)) = 0"
    using first by (simp_all add: new_Goofy_def)
  show ?thesis
    using hello_reconciles_session[of "handleAll [Hello (Some ''a'')] (new_Goofy True)"
        "Some ''b''"] start first after
    by simp
qed

text \<open>
  Outside these two conditions the script does otherwise: a recorded id that is the
  empty string counts as none, and an event handled while the socket is closed is
  followed by no keepalive.
\<close>

lemma hello_outside_conditions:
  "uuid g = Some [] \<Longrightarrow> handleBackendEvent (Hello m) g = Inr (keepAlive (g\<lparr>uuid := m\<rparr>))"
  "\<not> ws_isOpen g \<Longrightarrow> uuid g = None \<Longrightarrow> handleBackendEvent (Hello m) g = Inr (g\<lparr>uuid := m\<rparr>)"
  by (simp_all add: handleBackendEvent_def keepAlive_def)

section \<open>Engineering-mode gate\<close>

text \<open>
  Claim C4, as the script has it. For every entered text that is not empty: if its
  digest equals the stored hash, engineering mode is on afterwards and no dialog is
  added; otherwise engineering mode is as before (a locked gate stays locked) and
  exactly one alert is added, the last dialog. An empty text, or a cancelled prompt,
  changes nothing: no unlock and no alert.
\<close>

theorem password_entered:
  "(t \<noteq> [] \<and> Some (h t) = engineeringPasswordSHA1 g \<longrightarrow>
      engineeringMode (passwordEntered h (Some t) g) \<and>
      dialogs (passwordEntered h (Some t) g) = dialogs g) \<and>
   (t \<noteq> [] \<and> Some (h t) \<noteq> engineeringPasswordSHA1 g \<longrightarrow>
      engineeringMode (passwordEntered h (Some t) g) = engineeringMode g \<and>
      length (alerts (passwordEntered h (Some t) g)) = length (alerts g) + 1 \<and>
      dialogs (passwordEntered h (Some t) g) =
        dialogs g @
          [\<lparr> kind = AlertDialog, content = ''Incorrect password.'', visible = True,
             disposed = False, dialogClasses = [''goofy-alert''], timerRunning = False,
             shutdownInfo = None \<rparr>]) \<and>
   passwordEntered h (Some []) g = g \<and>
   passwordEntered h None g = g"
  by (simp add: passwordEntered_def setEngineeringMode_def alert_def alerts_def)

theorem password_entered_witness:
  "engineeringMode
     (passwordEntered digest_of_empty (Some ''secret'')
        (promptEngineeringPassword
           (testListOptions (Some ''da39a3ee5e6b4b0d3255bfef95601890afd80709'')
              (new_Goofy True)))) \<and>
   \<not> engineeringMode
       (passwordEntered digest_of_empty (Some ''secret'')
          (promptEngineeringPassword (new_Goofy True))) \<and>
   length (alerts (passwordEntered digest_of_empty (Some ''secret'')
                     (promptEngineeringPassword (new_Goofy True)))) = 1"
proof -
  have stored:
    "engineeringPasswordSHA1
       (promptEngineeringPassword
          (testListOptions (Some ''da39a3ee5e6b4b0d3255bfef95601890afd80709'')
             (new_Goofy True))) = Some ''da39a3ee5e6b4b0d3255bfef95601890afd80709''"
    "engineeringPasswordSHA1 (promptEngineeringPassword (new_Goofy True)) = Some ''?''"
    "\<not> engineeringMode (promptEngineeringPassword (new_Goofy True))"
    "alerts (promptEngineeringPassword (new_Goofy True)) = []"
    by (simp_all add: promptEngineeringPassword_def testListOptions_def
          setEngineeringMode_def new_Goofy_def alerts_def Let_def)
  show ?thesis
    using password_entered[of "''secret''" digest_of_empty
        "promptEngineeringPassword
           (testListOptions (Some ''da39a3ee5e6b4b0d3255bfef95601890afd80709'')
              (new_Goofy True))"]
      password_entered[of "''secret''" digest_of_empty
        "promptEngineeringPassword (new_Goofy True)"]
      stored
    by (simp add: digest_of_empty_def)
qed

text \<open>
  The claim as stated fails for the empty text: with the hash \<^verbatim>\<open>?\<close> that the
  constructor stores, the digest of the empty text differs from the stored hash, and
  no alert is shown; with the digest of the empty text as the stored hash, the empty
  text does not unlock.
\<close>

theorem password_entered_counterexample:
  "Some (digest_of_empty []) \<noteq>
     engineeringPasswordSHA1 (promptEngineeringPassword (new_Goofy True)) \<and>
   alerts (passwordEntered digest_of_empty (Some [])
             (promptEngineeringPassword (new_Goofy True))) = [] \<and>
   Some (digest_of_empty []) =
     engineeringPasswordSHA1
       (promptEngineeringPassword
          (testListOptions (Some ''da39a3ee5e6b4b0d3255bfef95601890afd80709'')
             (new_Goofy True))) \<and>
   \<not> engineeringMode
       (passwordEntered digest_of_empty (Some [])
          (promptEngineeringPassword
             (testListOptions (Some ''da39a3ee5e6b4b0d3255bfef95601890afd80709'')
                (new_Goofy True))))"
  by (simp add: passwordEntered_def promptEngineeringPassword_def testListOptions_def
        setEngineeringMode_def new_Goofy_def alerts_def digest_of_empty_def Let_def)

section \<open>Context menu: counts and events\<close>

lemma with_status_append:
  "with_status ss (xs @ ys) = with_status ss xs + with_status ss ys"
  by (simp add: with_status_def)

lemma with_status_Nil: "with_status ss [] = 0"
  by (simp add: with_status_def)

lemma countLeaves_counts:
  "(\<forall>l \<in> set (leaves t). state l \<noteq> None) \<longrightarrow>
     (\<exists>c'. countLeaves t c = Inr c' \<and>
        numLeaves c' = numLeaves c + length (leaves t) \<and>
        (\<forall>s. numLeavesByStatus c' s =
              (if with_status [s] (leaves t) = 0 then numLeavesByStatus c s
               else Some (or0 (numLeavesByStatus c s) + with_status [s] (leaves t)))))"
  "(\<forall>l \<in> set (concat (map leaves ts)). state l \<noteq> None) \<longrightarrow>
     (\<exists>c'. countLeaves_forEach ts c = Inr c' \<and>
        numLeaves c' = numLeaves c + length (concat (map leaves ts)) \<and>
        (\<forall>s. numLeavesByStatus c' s =
              (if with_status [s] (concat (map leaves ts)) = 0 then numLeavesByStatus c s
               else Some (or0 (numLeavesByStatus c s) + with_status [s] (concat (map leaves ts))))))"
proof (induction t c and ts c rule: countLeaves_countLeaves_forEach.induct)
  case (1 p en zh k s subs c)
  show ?case
  proof (cases "subs = []")
    case True
    then show ?thesis
      by (auto simp: with_status_def has_status_def or0_def split: option.splits)
  next
    case False
    show ?thesis
    proof
      assume "\<forall>l \<in> set (leaves (TestListEntry p en zh k s subs)). state l \<noteq> None"
      then have "\<forall>l \<in> set (concat (map leaves subs)). state l \<noteq> None"
        using False by simp
      with 1 obtain c' where c': "countLeaves_forEach subs (c\<lparr>allPaths := allPaths c @ [p]\<rparr>) = Inr c'"
        "numLeaves c' = numLeaves (c\<lparr>allPaths := allPaths c @ [p]\<rparr>) + length (concat (map leaves subs))"
        "\<forall>s'. numLeavesByStatus c' s' =
              (if with_status [s'] (concat (map leaves subs)) = 0
               then numLeavesByStatus (c\<lparr>allPaths := allPaths c @ [p]\<rparr>) s'
               else Some (or0 (numLeavesByStatus (c\<lparr>allPaths := allPaths c @ [p]\<rparr>) s') +
                          with_status [s'] (concat (map leaves subs))))"
        by blast
      have "countLeaves (TestListEntry p en zh k s subs) c = Inr c'"
        using c'(1) False by simp
      then show "\<exists>c'. countLeaves (TestListEntry p en zh k s subs) c = Inr c' \<and>
        numLeaves c' = numLeaves c + length (leaves (TestListEntry p en zh k s subs)) \<and>
        (\<forall>s'. numLeavesByStatus c' s' =
              (if with_status [s'] (leaves (TestListEntry p en zh k s subs)) = 0
               then numLeavesByStatus c s'
               else Some (or0 (numLeavesByStatus c s') +
                          with_status [s'] (leaves (TestListEntry p en zh k s subs)))))"
        using c'(2) c'(3) False by simp
    qed
  qed
next
  case (2 c)
  then show ?case by (simp add: with_status_def)
next
  case (3 t ts c)
  show ?case
  proof
    assume a: "\<forall>l \<in> set (concat (map leaves (t # ts))). state l \<noteq> None"
    then have at: "\<forall>l \<in> set (leaves t). state l \<noteq> None"
      and ats: "\<forall>l \<in> set (concat (map leaves ts)). state l \<noteq> None" by auto
    from 3(1) at obtain c1 where c1: "countLeaves t c = Inr c1"
      "numLeaves c1 = numLeaves c + length (leaves t)"
      "\<And>s. numLeavesByStatus c1 s =
              (if with_status [s] (leaves t) = 0 then numLeavesByStatus c s
               else Some (or0 (numLeavesByStatus c s) + with_status [s] (leaves t)))"
      by blast
    from 3(2)[OF c1(1)] ats obtain c2 where c2: "countLeaves_forEach ts c1 = Inr c2"
      "numLeaves c2 = numLeaves c1 + length (concat (map leaves ts))"
      "\<And>s. numLeavesByStatus c2 s =
              (if with_status [s] (concat (map leaves ts)) = 0 then numLeavesByStatus c1 s
               else Some (or0 (numLeavesByStatus c1 s) + with_status [s] (concat (map leaves ts))))"
      by blast
    have "countLeaves_forEach (t # ts) c = Inr c2" using c1(1) c2(1) by simp
    moreover have "numLeaves c2 = numLeaves c + length (concat (map leaves (t # ts)))"
      using c1(2) c2(2) by simp
    moreover have "numLeavesByStatus c2 s =
              (if with_status [s] (concat (map leaves (t # ts))) = 0 then numLeavesByStatus c s
               else Some (or0 (numLeavesByStatus c s) + with_status [s] (concat (map leaves (t # ts)))))" for s
      unfolding c2(3)[of s] c1(3)[of s] by (simp add: with_status_append or0_def)
    ultimately show "\<exists>c'. countLeaves_forEach (t # ts) c = Inr c' \<and>
        numLeaves c' = numLeaves c + length (concat (map leaves (t # ts))) \<and>
        (\<forall>s. numLeavesByStatus c' s =
              (if with_status [s] (concat (map leaves (t # ts))) = 0 then numLeavesByStatus c s
               else Some (or0 (numLeavesByStatus c s) + with_status [s] (concat (map leaves (t # ts))))))"
      by blast
  qed
qed


lemma leaves_nonempty: "leaves t \<noteq> []"
proof (induction t)
  case (TestListEntry p en zh k s subs)
  show ?case
  proof (cases subs)
    case Nil
    then show ?thesis by simp
  next
    case (Cons t ts)
    then have "leaves t \<noteq> []" using TestListEntry by simp
    then show ?thesis using Cons by simp
  qed
qed

lemma with_status_Cons:
  "s \<notin> set (s' # ss) \<Longrightarrow>
   with_status (s # s' # ss) ls = with_status [s] ls + with_status (s' # ss) ls"
  by (induction ls) (auto simp: with_status_def has_status_def split: option.splits)

lemma countLeaves_initial:
  assumes "\<forall>l \<in> set (leaves t). state l \<noteq> None"
  shows "\<exists>c. countLeaves t \<lparr>numLeaves = 0, numLeavesByStatus = Map.empty, allPaths = []\<rparr> = Inr c \<and>
           numLeaves c = length (leaves t) \<and>
           (\<forall>s. or0 (numLeavesByStatus c s) = with_status [s] (leaves t)) \<and>
           (numLeavesByStatus c ''UNTESTED'' = Some (numLeaves c) \<longleftrightarrow>
              with_status [''UNTESTED''] (leaves t) = length (leaves t))"
proof -
  obtain c where c: "countLeaves t \<lparr>numLeaves = 0, numLeavesByStatus = Map.empty, allPaths = []\<rparr> = Inr c"
    "numLeaves c = length (leaves t)"
    "\<And>s. numLeavesByStatus c s =
          (if with_status [s] (leaves t) = 0 then None else Some (with_status [s] (leaves t)))"
    using countLeaves_counts(1)[of t "\<lparr>numLeaves = 0, numLeavesByStatus = Map.empty, allPaths = []\<rparr>"]
      assms by (auto simp: or0_def)
  have "length (leaves t) \<noteq> 0" using leaves_nonempty[of t] by simp
  then have "numLeavesByStatus c ''UNTESTED'' = Some (numLeaves c) \<longleftrightarrow>
              with_status [''UNTESTED''] (leaves t) = length (leaves t)"
    unfolding c(3) c(2) by auto
  moreover have "or0 (numLeavesByStatus c s) = with_status [s] (leaves t)" for s
    unfolding c(3) by (simp add: or0_def)
  ultimately show ?thesis using c(1) c(2) by blast
qed


lemma showTestPopup_menu:
  assumes "pathTestMap g p = Some r" and "testList g = Some t0" and "entry_at t0 r = Some test"
    and "countLeaves test \<lparr>numLeaves = 0, numLeavesByStatus = Map.empty, allPaths = []\<rparr> = Inr c"
  shows "fst (showTestPopup p [] g) = testMenu p test c"
  using assms by (simp add: showTestPopup_def js_read_def Let_def split: sum.splits)


lemma testMenu_counts:
  assumes n: "numLeaves c = length (leaves test)"
    and o: "\<And>s. or0 (numLeavesByStatus c s) = with_status [s] (leaves test)"
    and u: "numLeavesByStatus c ''UNTESTED'' = Some (numLeaves c) \<longleftrightarrow>
              with_status [''UNTESTED''] (leaves test) = length (leaves test)"
    and st: "state test = Some st"
  shows "testMenu p test c = Inr ([Item (makeMenuItem
                   ((if with_status [''UNTESTED''] (leaves test) = length (leaves test)
                     then ''Run'' else ''Restart'') @
                    (if length (leaves test) > 1 then '' all'' else []))
                   [] (length (leaves test)) test
                   (''goofy:restart_tests'', [(''path'', JString p)]) False)] @
          (if subtests test \<noteq> []
           then [Item (makeMenuItem ''Restart'' ''not passed''
                         (with_status [''UNTESTED'', ''ACTIVE'', ''FAILED''] (leaves test)) test
                         (''goofy:run_tests_with_status'',
                          [(''status'',
                            JArray [JString ''UNTESTED'', JString ''ACTIVE'', JString ''FAILED'']),
                           (''path'', JString p)])
                         True),
                 Item (makeMenuItem ''Run'' ''untested''
                         (with_status [''UNTESTED'', ''ACTIVE''] (leaves test)) test
                         (''goofy:auto_run'', [(''path'', JString p)]) False)]
           else []) @
          [MenuSeparator,
           Item (makeMenuItem ''Stop'' ''active''
                   (with_status [''ACTIVE''] (leaves test)) test (''goofy:stop'', []) False)])"
proof -
  have three: "with_status [''UNTESTED'', ''ACTIVE'', ''FAILED''] (leaves test) =
      or0 (numLeavesByStatus c ''UNTESTED'') + or0 (numLeavesByStatus c ''ACTIVE'') +
      or0 (numLeavesByStatus c ''FAILED'')"
    unfolding o by (simp add: with_status_Cons)
  have two: "with_status [''UNTESTED'', ''ACTIVE''] (leaves test) =
      or0 (numLeavesByStatus c ''UNTESTED'') + or0 (numLeavesByStatus c ''ACTIVE'')"
    unfolding o by (simp add: with_status_Cons)
  have one: "with_status [''ACTIVE''] (leaves test) = or0 (numLeavesByStatus c ''ACTIVE'')"
    unfolding o ..
  have lab: "(if with_status [''UNTESTED''] (leaves test) = length (leaves test)
                then ''Run'' else ''Restart'') =
             (if numLeavesByStatus c ''UNTESTED'' = Some (numLeaves c)
                then ''Run'' else ''Restart'')"
    using u by simp
  show ?thesis
    using u unfolding three two one n[symmetric] testMenu_def Let_def st
    by (cases "subtests test = []") simp_all
qed


text \<open>
  Claim C5, as the script has it. Let the clicked path refer to the entry \<open>test\<close>, and
  let every leaf under it, and the entry itself, have a state. The menu then is: the
  run/restart item, made with the number of leaves; for an entry with subtests only,
  the restart-not-passed item, made with the number of leaves whose status is
  \<^verbatim>\<open>UNTESTED\<close>, \<^verbatim>\<open>ACTIVE\<close> or \<^verbatim>\<open>FAILED\<close>, and the run-untested item, made with the number
  of leaves whose status is \<^verbatim>\<open>UNTESTED\<close> or \<^verbatim>\<open>ACTIVE\<close>; a separator; and the stop item,
  made with the number of leaves whose status is \<^verbatim>\<open>ACTIVE\<close>. An item is enabled
  exactly when the count it is made with is not zero. Only leaves are counted.
\<close>

theorem context_menu_counts:
  assumes "pathTestMap g p = Some r" and "testList g = Some t0" and "entry_at t0 r = Some test"
    and "\<forall>l \<in> set (leaves test). state l \<noteq> None" and "state test \<noteq> None"
  shows "fst (showTestPopup p [] g) =
     Inr ([Item (makeMenuItem
                   ((if with_status [''UNTESTED''] (leaves test) = length (leaves test)
                     then ''Run'' else ''Restart'') @
                    (if length (leaves test) > 1 then '' all'' else []))
                   [] (length (leaves test)) test
                   (''goofy:restart_tests'', [(''path'', JString p)]) False)] @
          (if subtests test \<noteq> []
           then [Item (makeMenuItem ''Restart'' ''not passed''
                         (with_status [''UNTESTED'', ''ACTIVE'', ''FAILED''] (leaves test)) test
                         (''goofy:run_tests_with_status'',
                          [(''status'',
                            JArray [JString ''UNTESTED'', JString ''ACTIVE'', JString ''FAILED'']),
                           (''path'', JString p)])
                         True),
                 Item (makeMenuItem ''Run'' ''untested''
                         (with_status [''UNTESTED'', ''ACTIVE''] (leaves test)) test
                         (''goofy:auto_run'', [(''path'', JString p)]) False)]
           else []) @
          [MenuSeparator,
           Item (makeMenuItem ''Stop'' ''active''
                   (with_status [''ACTIVE''] (leaves test)) test (''goofy:stop'', []) False)]) \<and>
     (\<forall>verbEn adjectiveEn n t hdl atEnd.
        enabled (makeMenuItem verbEn adjectiveEn n t hdl atEnd) = (n \<noteq> 0))"
proof -
  obtain c where c: "countLeaves test \<lparr>numLeaves = 0, numLeavesByStatus = Map.empty, allPaths = []\<rparr> = Inr c"
    "numLeaves c = length (leaves test)"
    "\<And>s. or0 (numLeavesByStatus c s) = with_status [s] (leaves test)"
    "numLeavesByStatus c ''UNTESTED'' = Some (numLeaves c) \<longleftrightarrow>
       with_status [''UNTESTED''] (leaves test) = length (leaves test)"
    using countLeaves_initial[OF assms(4)] by blast
  obtain st where st: "state test = Some st" using assms(5) by blast
  have "fst (showTestPopup p [] g) = testMenu p test c"
    by (rule showTestPopup_menu[OF assms(1-3) c(1)])
  moreover have "enabled (makeMenuItem verbEn adjectiveEn n t hdl atEnd) = (n \<noteq> 0)"
    for verbEn adjectiveEn n t hdl atEnd
    by (simp add: makeMenuItem_def Let_def)
  ultimately show ?thesis
    unfolding testMenu_counts[OF c(2) c(3) c(4) st] by blast
qed

lemma sample_SMT_facts:
  "pathTestMap sample_goofy ''SMT'' = Some [0]"
  "testList sample_goofy = Some sample_testList"
  "entry_at sample_testList [0] = Some sample_SMT"
  "\<forall>l \<in> set (leaves sample_SMT). state l \<noteq> None"
  "state sample_SMT \<noteq> None"
  "subtests sample_SMT \<noteq> []"
  "length (leaves sample_SMT) = 6"
  "with_status [''UNTESTED''] (leaves sample_SMT) = 2"
  "with_status [''UNTESTED'', ''ACTIVE'', ''FAILED''] (leaves sample_SMT) = 3"
  "with_status [''UNTESTED'', ''ACTIVE''] (leaves sample_SMT) = 2"
  "with_status [''ACTIVE''] (leaves sample_SMT) = 0"
  by (simp_all add: sample_goofy_def setTestList_def sample_testList_def sample_SMT_def
        sample_leaf_def new_Goofy_def with_status_def has_status_def)

text \<open>
  The example of the specification: under \<^verbatim>\<open>SMT\<close> two leaves are untested, one has
  failed and three have passed; the counts are 3, 2 and 0, and the stop item is
  disabled.
\<close>

theorem context_menu_counts_witness:
  "pathTestMap sample_goofy ''SMT'' = Some [0] \<and>
   testList sample_goofy = Some sample_testList \<and>
   entry_at sample_testList [0] = Some sample_SMT \<and>
   list_all (\<lambda>l. state l \<noteq> None) (leaves sample_SMT) \<and>
   state sample_SMT \<noteq> None \<and>
   fst (showTestPopup ''SMT'' [] sample_goofy) =
     Inr [Item (makeMenuItem ''Restart all'' [] 6 sample_SMT
                  (''goofy:restart_tests'', [(''path'', JString ''SMT'')]) False),
          Item (makeMenuItem ''Restart'' ''not passed'' 3 sample_SMT
                  (''goofy:run_tests_with_status'',
                   [(''status'',
                     JArray [JString ''UNTESTED'', JString ''ACTIVE'', JString ''FAILED'']),
                    (''path'', JString ''SMT'')])
                  True),
          Item (makeMenuItem ''Run'' ''untested'' 2 sample_SMT
                  (''goofy:auto_run'', [(''path'', JString ''SMT'')]) False),
          MenuSeparator,
          Item (makeMenuItem ''Stop'' ''active'' 0 sample_SMT (''goofy:stop'', []) False)] \<and>
   enabled (makeMenuItem ''Restart'' ''not passed'' 3 sample_SMT
              (''goofy:run_tests_with_status'',
               [(''status'',
                 JArray [JString ''UNTESTED'', JString ''ACTIVE'', JString ''FAILED'']),
                (''path'', JString ''SMT'')])
              True) \<and>
   \<not> enabled (makeMenuItem ''Stop'' ''active'' 0 sample_SMT (''goofy:stop'', []) False)"
  using context_menu_counts[OF sample_SMT_facts(1-5)] sample_SMT_facts
  by (simp add: list_all_iff)

text \<open>
  The claim as stated fails for a clicked leaf: the passed leaf \<^verbatim>\<open>SMT.Keyboard\<close> has no
  leaf that is untested, active or failed, and its menu has no restart-not-passed item
  and no run-untested item at all, rather than disabled ones.
\<close>

theorem context_menu_leaf_counterexample:
  "pathTestMap sample_goofy ''SMT.Keyboard'' = Some [0, 3] \<and>
   entry_at sample_testList [0, 3] = Some (sample_leaf ''SMT.Keyboard'' ''Keyboard'' ''PASSED'') \<and>
   with_status [''UNTESTED'', ''ACTIVE'', ''FAILED'']
     (leaves (sample_leaf ''SMT.Keyboard'' ''Keyboard'' ''PASSED'')) = 0 \<and>
   fst (showTestPopup ''SMT.Keyboard'' [] sample_goofy) =
     Inr [Item \<lparr>labelEn = ''Restart  test Keyboard'', enabled = True,
                handler = (''goofy:restart_tests'', [(''path'', JString ''SMT.Keyboard'')])\<rparr>,
          MenuSeparator,
          Item \<lparr>labelEn = ''Stop active test Keyboard'', enabled = False,
                handler = (''goofy:stop'', [])\<rparr>]"
  by (simp add: showTestPopup_def testMenu_def makeMenuItem_def js_read_def or0_def Let_def
        sample_goofy_def setTestList_def sample_testList_def sample_SMT_def
        sample_leaf_def new_Goofy_def with_status_def has_status_def)

text \<open>
  Claim C6 at a failing input. In the sample session with \<^verbatim>\<open>SMT.LED\<close> active, nothing
  was sent yet. Choosing the stop item (entry 4) of the menu of \<^verbatim>\<open>SMT\<close> sends one
  event, and it has the type alone: no path. Choosing the restart-not-passed item
  (entry 1) sends one event with the status list and the path.
\<close>

theorem stop_event_has_no_path:
  "test_state sample_active ''SMT.LED'' =
     Some \<lparr>status = ''ACTIVE'', error_msg = None, count = 1\<rparr> \<and>
   ws_sent sample_active = [] \<and>
   ws_sent (menuChoice ''SMT'' 4 sample_active) = [[(''type'', JString ''goofy:stop'')]] \<and>
   ws_sent (menuChoice ''SMT'' 1 sample_active) =
     [[(''status'', JArray [JString ''UNTESTED'', JString ''ACTIVE'', JString ''FAILED'']),
       (''path'', JString ''SMT''),
       (''type'', JString ''goofy:run_tests_with_status'')]]"
  by (simp add: menuChoice_def menuHidden_def selectItem_def sendEvent_def
        showTestPopup_def testMenu_def makeMenuItem_def js_read_def or0_def
       sample_active_def handleBackendEvent_def getOrCreateInvocation_def
       js_in_def js_get_def new_Invocation_def iframe_of_def update_iframe_def
       document_write_def removeChildren_def blank_iframe_def setTestState_def
       test_state_def AUTO_COLLAPSE_def Let_def sample_goofy_def setTestList_def
       sample_testList_def sample_SMT_def sample_leaf_def new_Goofy_def Object_prototype_def)

section \<open>Invariants of the reachable states\<close>

lemma entry_at_snoc:
  "entry_at t0 pos = Some t \<Longrightarrow> i < length (subtests t) \<Longrightarrow>
   entry_at t0 (pos @ [i]) = Some (subtests t ! i)"
  by (induction pos arbitrary: t0) (auto split: if_splits)

lemma tree_invI:
  assumes "\<And>p n. pathNodeMap g p = Some n \<Longrightarrow>
             (\<exists>nd. treeNodes g n = Some nd) \<and>
             (\<exists>r t e. pathTestMap g p = Some r \<and> testList g = Some t \<and> entry_at t r = Some e)"
  shows "tree_inv g"
  unfolding tree_inv_def using assms by blast

lemma tree_invD:
  assumes "tree_inv g" and "pathNodeMap g p = Some n"
  shows "\<exists>nd. treeNodes g n = Some nd"
    and "\<exists>r t e. pathTestMap g p = Some r \<and> testList g = Some t \<and> entry_at t r = Some e"
  using assms unfolding tree_inv_def by blast+

lemma addToNode_tree:
  "tree_inv g \<and> testList g = Some t0 \<and> entry_at t0 pos = Some t \<longrightarrow>
     tree_inv (addToNode pos t g) \<and> testList (addToNode pos t g) = Some t0 \<and>
     (\<forall>n. treeNodes g n \<noteq> None \<longrightarrow> treeNodes (addToNode pos t g) n \<noteq> None)"
  "tree_inv g \<and> testList g = Some t0 \<and>
   (\<forall>j < length ts. entry_at t0 (pos @ [i + j]) = Some (ts ! j)) \<longrightarrow>
     tree_inv (addSubtests pos i ts g) \<and> testList (addSubtests pos i ts g) = Some t0 \<and>
     (\<forall>n. treeNodes g n \<noteq> None \<longrightarrow> treeNodes (addSubtests pos i ts g) n \<noteq> None)"
proof (induction pos t g and pos i ts g rule: addToNode_addSubtests.induct)
  case (1 pos p en zh k s subs g)
  let ?t = "TestListEntry p en zh k s subs"
  let ?g1 = "g\<lparr>treeNodes := (treeNodes g)(rev pos \<mapsto>
                   \<lparr> classes = [], expanded = False, childCount = length subs \<rparr>)\<rparr>"
  let ?g2 = "addSubtests pos 0 subs ?g1"
  show ?case
  proof (intro impI)
    assume a: "tree_inv g \<and> testList g = Some t0 \<and> entry_at t0 pos = Some ?t"
    have inv1: "tree_inv ?g1"
    proof (rule tree_invI)
      fix q n assume "pathNodeMap ?g1 q = Some n"
      then have q: "pathNodeMap g q = Some n" by simp
      show "(\<exists>nd. treeNodes ?g1 n = Some nd) \<and>
            (\<exists>r t e. pathTestMap ?g1 q = Some r \<and> testList ?g1 = Some t \<and> entry_at t r = Some e)"
        using tree_invD[OF conjunct1[OF a] q] by auto
    qed
    have subs: "\<forall>j < length subs. entry_at t0 (pos @ [0 + j]) = Some (subs ! j)"
      using a entry_at_snoc[of t0 pos ?t] by simp
    have tl1: "testList ?g1 = Some t0" using a by simp
    have ih: "tree_inv ?g2 \<and> testList ?g2 = Some t0 \<and>
              (\<forall>n. treeNodes ?g1 n \<noteq> None \<longrightarrow> treeNodes ?g2 n \<noteq> None)"
      using 1[OF refl] inv1 tl1 subs by blast
    let ?g3 = "?g2\<lparr> pathNodeMap := (pathNodeMap ?g2)(p \<mapsto> rev pos),
                    pathTestMap := (pathTestMap ?g2)(p \<mapsto> pos) \<rparr>"
    have eq: "addToNode pos ?t g = ?g3" by (simp add: Let_def)
    have node: "\<exists>nd. treeNodes ?g2 (rev pos) = Some nd"
      using ih by (simp add: option.split_sel_asm)
    have inv3: "tree_inv ?g3"
    proof (rule tree_invI)
      fix q n assume q: "pathNodeMap ?g3 q = Some n"
      show "(\<exists>nd. treeNodes ?g3 n = Some nd) \<and>
            (\<exists>r t e. pathTestMap ?g3 q = Some r \<and> testList ?g3 = Some t \<and> entry_at t r = Some e)"
      proof (cases "q = p")
        case True
        then have "n = rev pos" using q by simp
        then show ?thesis using node ih a True by simp
      next
        case False
        then have "pathNodeMap ?g2 q = Some n" using q by simp
        then show ?thesis using tree_invD[OF conjunct1[OF ih]] False by simp
      qed
    qed
    have mono: "\<forall>n. treeNodes g n \<noteq> None \<longrightarrow> treeNodes ?g3 n \<noteq> None"
      using ih by simp
    show "tree_inv (addToNode pos ?t g) \<and> testList (addToNode pos ?t g) = Some t0 \<and>
          (\<forall>n. treeNodes g n \<noteq> None \<longrightarrow> treeNodes (addToNode pos ?t g) n \<noteq> None)"
      unfolding eq using inv3 ih mono by simp
  qed
next
  case (2 pos i g)
  then show ?case by simp
next
  case (3 pos i t ts g)
  show ?case
  proof (intro impI)
    assume a: "tree_inv g \<and> testList g = Some t0 \<and>
               (\<forall>j < length (t # ts). entry_at t0 (pos @ [i + j]) = Some ((t # ts) ! j))"
    then have hd: "entry_at t0 (pos @ [i]) = Some t" by fastforce
    have tl: "\<forall>j < length ts. entry_at t0 (pos @ [Suc i + j]) = Some (ts ! j)"
    proof (intro allI impI)
      fix j assume "j < length ts"
      then have "entry_at t0 (pos @ [i + Suc j]) = Some ((t # ts) ! Suc j)" using a by auto
      then show "entry_at t0 (pos @ [Suc i + j]) = Some (ts ! j)" by simp
    qed
    let ?g1 = "addToNode (pos @ [i]) t g"
    have s1: "tree_inv ?g1 \<and> testList ?g1 = Some t0 \<and>
              (\<forall>n. treeNodes g n \<noteq> None \<longrightarrow> treeNodes ?g1 n \<noteq> None)"
      using 3(1) a hd by blast
    have s2: "tree_inv (addSubtests pos (Suc i) ts ?g1) \<and>
              testList (addSubtests pos (Suc i) ts ?g1) = Some t0 \<and>
              (\<forall>n. treeNodes ?g1 n \<noteq> None \<longrightarrow> treeNodes (addSubtests pos (Suc i) ts ?g1) n \<noteq> None)"
      using 3(2) s1 tl by blast
    show "tree_inv (addSubtests pos i (t # ts) g) \<and>
          testList (addSubtests pos i (t # ts) g) = Some t0 \<and>
          (\<forall>n. treeNodes g n \<noteq> None \<longrightarrow> treeNodes (addSubtests pos i (t # ts) g) n \<noteq> None)"
      using s1 s2 by simp
  qed
qed


lemma tree_inv_cong: "same_tree g' g \<Longrightarrow> tree_inv g' = tree_inv g"
  by (simp add: same_tree_def tree_inv_def)

lemma assign_state_shape:
  "entry_at t r' \<noteq> None \<Longrightarrow> entry_at (assign_state t r st) r' \<noteq> None"
proof (induction r' arbitrary: t r)
  case Nil
  then show ?case by simp
next
  case (Cons j js)
  obtain p en zh k s subs where t: "t = TestListEntry p en zh k s subs" by (cases t)
  from Cons.prems t have j: "j < length subs" and e: "entry_at (subs ! j) js \<noteq> None"
    by (auto split: if_splits)
  show ?case
  proof (cases r)
    case Nil
    then show ?thesis using t j e by simp
  next
    case (Cons i rest)
    show ?thesis
    proof (cases "i < length subs")
      case True
      have "entry_at (subs[i := assign_state (subs ! i) rest st] ! j) js \<noteq> None"
      proof (cases "j = i")
        case True
        then show ?thesis using j e Cons.IH[of "subs ! i" rest] by simp
      next
        case False
        then show ?thesis using e by simp
      qed
      then show ?thesis using t Cons True j by simp
    next
      case False
      then show ?thesis using t Cons j e by simp
    qed
  qed
qed

lemma setExpanded_dom: "dom (setExpanded n b nodes) = dom nodes"
  by (auto simp: setExpanded_def split: option.splits)

lemma reveal_dom: "dom (reveal n nodes) = dom nodes"
  by (induction n arbitrary: nodes) (simp_all add: setExpanded_dom)

lemma reveal_Some: "nodes q \<noteq> None \<Longrightarrow> \<exists>z. reveal n nodes q = Some z"
  using reveal_dom[of n nodes] by (metis domD domIff)

lemma tree_inv_update:
  assumes inv: "tree_inv g"
    and "pathNodeMap g' = pathNodeMap g" and "pathTestMap g' = pathTestMap g"
    and nodes: "\<And>n. treeNodes g n \<noteq> None \<Longrightarrow> treeNodes g' n \<noteq> None"
    and list: "\<And>t. testList g = Some t \<Longrightarrow>
             \<exists>t'. testList g' = Some t' \<and> (\<forall>r. entry_at t r \<noteq> None \<longrightarrow> entry_at t' r \<noteq> None)"
  shows "tree_inv g'"
proof (rule tree_invI)
  fix p n assume "pathNodeMap g' p = Some n"
  then have pn: "pathNodeMap g p = Some n" using assms(2) by simp
  obtain nd where "treeNodes g n = Some nd" using tree_invD(1)[OF inv pn] by blast
  then have a: "\<exists>nd. treeNodes g' n = Some nd" using nodes[of n] by auto
  obtain r t e where r: "pathTestMap g p = Some r" "testList g = Some t" "entry_at t r = Some e"
    using tree_invD(2)[OF inv pn] by blast
  obtain t' where t': "testList g' = Some t'" "entry_at t' r \<noteq> None"
    using list[OF r(2)] r(3) by auto
  then have b: "\<exists>r t e. pathTestMap g' p = Some r \<and> testList g' = Some t \<and> entry_at t r = Some e"
    using r(1) assms(3) by auto
  show "(\<exists>nd. treeNodes g' n = Some nd) \<and>
        (\<exists>r t e. pathTestMap g' p = Some r \<and> testList g' = Some t \<and> entry_at t r = Some e)"
    using a b by blast
qed

lemma setTestState_tree_fields:
  assumes "setTestState p st g = Inr g'"
  shows "pathNodeMap g' = pathNodeMap g" and "pathTestMap g' = pathTestMap g"
    and "treeNodes g n \<noteq> None \<Longrightarrow> treeNodes g' n \<noteq> None"
    and "testList g' = testList g \<or>
         (\<exists>r. testList g' = map_option (\<lambda>t. assign_state t r st) (testList g))"
proof -
  show "pathNodeMap g' = pathNodeMap g"
    using assms
    by (auto simp: setTestState_def Let_def split: property.splits option.splits if_splits)
  show "pathTestMap g' = pathTestMap g"
    using assms
    by (auto simp: setTestState_def Let_def split: property.splits option.splits if_splits)
  show "testList g' = testList g \<or>
         (\<exists>r. testList g' = map_option (\<lambda>t. assign_state t r st) (testList g))"
    using assms
    by (auto simp: setTestState_def Let_def split: property.splits option.splits if_splits)
  have "treeNodes g n \<noteq> None \<longrightarrow> treeNodes g' n \<noteq> None"
    using assms
    by (auto simp: setTestState_def Let_def
          split: property.splits option.splits if_splits intro!: reveal_Some)
  moreover assume "treeNodes g n \<noteq> None"
  ultimately show "treeNodes g' n \<noteq> None" by blast
qed

lemma tree_inv_setTestState:
  assumes inv: "tree_inv g" and s: "setTestState p st g = Inr g'"
  shows "tree_inv g'"
proof (rule tree_inv_update[OF inv setTestState_tree_fields(1,2)[OF s]])
  fix n assume "treeNodes g n \<noteq> None"
  then show "treeNodes g' n \<noteq> None" by (rule setTestState_tree_fields(3)[OF s])
next
  fix t assume t: "testList g = Some t"
  from setTestState_tree_fields(4)[OF s]
  show "\<exists>t'. testList g' = Some t' \<and> (\<forall>r. entry_at t r \<noteq> None \<longrightarrow> entry_at t' r \<noteq> None)"
  proof
    assume "testList g' = testList g"
    then show ?thesis using t by simp
  next
    assume "\<exists>r. testList g' = map_option (\<lambda>t. assign_state t r st) (testList g)"
    then obtain r where "testList g' = Some (assign_state t r st)" using t by auto
    then show ?thesis using assign_state_shape by blast
  qed
qed


lemma same_tree_refl: "same_tree g g"
  by (simp add: same_tree_def)

lemma same_invocations_refl: "same_invocations g g"
  by (simp add: same_invocations_def)

lemma getOrCreate_same_tree: "same_tree (snd (getOrCreateInvocation p u g)) g"
  by (simp add: same_tree_def getOrCreateInvocation_def Let_def new_Invocation_def)

lemma dispose_same_tree: "same_tree (dispose r g) g"
  by (simp add: same_tree_def dispose_def Let_def split: option.splits)

lemma setPendingShutdown_same:
  "same_tree (setPendingShutdown info g) g" "same_invocations (setPendingShutdown info g) g"
  by (simp_all add: same_tree_def same_invocations_def setPendingShutdown_def closeDialog_def
        Let_def split: option.splits)

lemma handle_same_tree:
  assumes h: "handleBackendEvent m g = Inr g'" and m: "\<And>p st. m \<noteq> StateChange p st"
  shows "same_tree g' g"
proof (cases m)
  case (StateChange p st)
  then show ?thesis using m by blast
next
  case (SetHtml p u a html)
  then show ?thesis using h getOrCreate_same_tree[of p u g]
    by (auto simp: handleBackendEvent_def update_iframe_def same_tree_def
          split: prod.splits sum.splits option.splits)
next
  case (RunJs p u a js)
  then show ?thesis using h getOrCreate_same_tree[of p u g]
    by (auto simp: handleBackendEvent_def update_iframe_def same_tree_def
          split: prod.splits sum.splits option.splits)
next
  case (CallJsFunction p u name a)
  then show ?thesis using h getOrCreate_same_tree[of p u g]
    by (auto simp: handleBackendEvent_def update_iframe_def same_tree_def
          split: prod.splits sum.splits option.splits)
next
  case (DestroyTest u)
  then show ?thesis using h dispose_same_tree same_tree_refl
    by (auto simp: handleBackendEvent_def split: property.splits)
next
  case (PendingShutdown info)
  then show ?thesis using h setPendingShutdown_same(1) by (auto simp: handleBackendEvent_def)
qed (use h in \<open>auto simp: handleBackendEvent_def keepAlive_def sendEvent_def logToConsole_def
       setSystemInfo_def same_tree_def split: if_splits\<close>)

lemma menuChoice_same:
  "same_tree (menuChoice p k g) g" "same_invocations (menuChoice p k g) g"
  by (auto simp: same_tree_def same_invocations_def menuChoice_def showTestPopup_def
          menuHidden_def selectItem_def sendEvent_def Let_def
          split: prod.splits sum.splits property.splits option.splits MenuEntry.splits)

lemma prompt_same:
  "same_tree (promptEngineeringPassword g) g" "same_invocations (promptEngineeringPassword g) g"
  by (simp_all add: same_tree_def same_invocations_def promptEngineeringPassword_def alert_def
        setEngineeringMode_def Let_def split: option.splits)

lemma passwordEntered_same:
  "same_tree (passwordEntered h entered g) g" "same_invocations (passwordEntered h entered g) g"
  by (simp_all add: same_tree_def same_invocations_def passwordEntered_def alert_def
        setEngineeringMode_def split: option.splits)

lemma tree_inv_setTestStates:
  "tree_inv g \<Longrightarrow> tree_inv (setTestStates stateMap g)"
proof (induction stateMap arbitrary: g)
  case Nil
  then show ?case by simp
next
  case (Cons a stateMap)
  obtain p st where a: "a = (p, st)" by (cases a)
  show ?case
  proof (cases "setTestState p st g")
    case (Inl e)
    then show ?thesis using a Cons.IH[OF Cons.prems] Cons.prems by simp
  next
    case (Inr g1)
    then show ?thesis
      using a Cons.IH[OF Cons.prems] Cons.IH[OF tree_inv_setTestState[OF Cons.prems Inr]]
      by simp
  qed
qed

lemma tree_inv_step:
  assumes inv: "tree_inv g"
  shows "tree_inv (step h inp g)"
proof (cases inp)
  case SocketOpened
  then show ?thesis using inv tree_inv_cong[of "ws_OPENED g" g] by (simp add: step_def socket_frame)
next
  case SocketError
  then show ?thesis using inv tree_inv_cong[of "ws_ERROR g" g] by (simp add: step_def socket_frame)
next
  case SocketClosed
  then show ?thesis using inv tree_inv_cong[of "ws_CLOSED g" g] by (simp add: step_def socket_frame)
next
  case KeepAliveTimer
  then show ?thesis using inv tree_inv_cong[of "keepAlive g" g] by (simp add: step_def socket_frame)
next
  case (TestStatesReply stateMap)
  then show ?thesis using tree_inv_setTestStates[OF inv] by (simp add: step_def)
next
  case (SystemInfoReply systemInfo)
  then show ?thesis using inv tree_inv_cong[of "setSystemInfo systemInfo g" g]
    by (simp add: step_def socket_frame)
next
  case (Backend m)
  show ?thesis
  proof (cases "handleBackendEvent m g")
    case (Inl e)
    then show ?thesis using inv Backend by (simp add: step_def)
  next
    case (Inr g')
    have "tree_inv g'"
    proof (cases "\<exists>p st. m = StateChange p st")
      case True
      then obtain p st where "m = StateChange p st" by blast
      then have "setTestState p st g = Inr g'" using Inr by (simp add: handleBackendEvent_def)
      then show ?thesis by (rule tree_inv_setTestState[OF inv])
    next
      case False
      then have "same_tree g' g" using handle_same_tree[OF Inr] by blast
      then show ?thesis using inv tree_inv_cong by blast
    qed
    then show ?thesis using Inr Backend by (simp add: step_def)
  qed
next
  case (TestListReply t)
  show ?thesis
  proof (cases "testList g")
    case None
    have empty: "pathNodeMap g p = None" for p
      using inv None unfolding tree_inv_def by (cases "pathNodeMap g p") auto
    have "tree_inv (g\<lparr>testList := Some t\<rparr>)"
      by (rule tree_invI) (simp add: empty)
    then have "tree_inv (addToNode [] t (g\<lparr>testList := Some t\<rparr>))"
      using addToNode_tree(1)[of "g\<lparr>testList := Some t\<rparr>" t "[]" t] by simp
    then show ?thesis using None TestListReply by (simp add: step_def setTestList_def)
  next
    case (Some t')
    then show ?thesis using inv TestListReply by (simp add: step_def)
  qed
next
  case (TestListOptionsReply hash)
  have "same_tree (testListOptions hash g) g"
    by (simp add: same_tree_def testListOptions_def setEngineeringMode_def)
  then show ?thesis using inv TestListOptionsReply tree_inv_cong by (simp add: step_def)
next
  case CtrlAlt0
  then show ?thesis using inv tree_inv_cong[OF prompt_same(1)] by (simp add: step_def)
next
  case (PasswordText entered)
  then show ?thesis using inv tree_inv_cong[OF passwordEntered_same(1)] by (simp add: step_def)
next
  case EscapeKey
  have "same_tree (onKey True g) g" by (simp add: same_tree_def onKey_def sendEvent_def)
  then show ?thesis using inv EscapeKey tree_inv_cong by (simp add: step_def)
next
  case (MenuChoice p k)
  then show ?thesis using inv tree_inv_cong[OF menuChoice_same(1)] by (simp add: step_def)
next
  case (SandboxPass r)
  have "same_tree (Test_pass r g) g"
    using dispose_same_tree[of r "sendEvent ''goofy:end_test''
                    [(''status'', JString ''PASSED''),
                     (''invocation'', JString (inv_uuid (invocationObjects g ! r))),
                     (''test'', JString (inv_path (invocationObjects g ! r)))] g"]
    by (simp add: same_tree_def Test_pass_def Let_def sendEvent_def)
  then show ?thesis using inv SandboxPass tree_inv_cong by (simp add: step_def)
next
  case (SandboxFail r msg)
  have "same_tree (Test_fail r msg g) g"
    using dispose_same_tree[of r "sendEvent ''goofy:end_test''
                    [(''status'', JString ''FAILED''),
                     (''error_msg'', JString msg),
                     (''invocation'', JString (inv_uuid (invocationObjects g ! r))),
                     (''test'', JString (inv_path (invocationObjects g ! r)))] g"]
    by (simp add: same_tree_def Test_fail_def Let_def sendEvent_def)
  then show ?thesis using inv SandboxFail tree_inv_cong by (simp add: step_def)
next
  case (SandboxTestEvent r subtype data)
  have "same_tree (Test_sendTestEvent r subtype data g) g"
    by (simp add: same_tree_def Test_sendTestEvent_def Let_def sendEvent_def)
  then show ?thesis using inv SandboxTestEvent tree_inv_cong by (simp add: step_def)
qed

lemma tree_inv_run: "tree_inv g \<Longrightarrow> tree_inv (run h inps g)"
  by (induction inps arbitrary: g) (simp_all add: tree_inv_step)

lemma tree_inv_new_Goofy: "tree_inv (new_Goofy b)"
  by (simp add: tree_inv_def new_Goofy_def)


lemma invocation_inv_cong: "same_invocations g' g \<Longrightarrow> invocation_inv g' = invocation_inv g"
  by (simp add: same_invocations_def invocation_inv_def)

lemma invocation_invI:
  assumes "length (iframes g) = length (invocationObjects g)"
    and "\<And>u r. invocations g u = Some (Some r) \<Longrightarrow>
           r < length (invocationObjects g) \<and>
           inv_uuid (invocationObjects g ! r) = u \<and>
           inv_iframe (invocationObjects g ! r) = Some r"
    and "\<And>r i. r < length (invocationObjects g) \<Longrightarrow>
           inv_iframe (invocationObjects g ! r) = Some i \<Longrightarrow>
           i = r \<and> attached (iframes g ! r) \<and>
           invocations g (inv_uuid (invocationObjects g ! r)) = Some (Some r)"
  shows "invocation_inv g"
  unfolding invocation_inv_def using assms by blast

lemma invocation_invD:
  assumes "invocation_inv g"
  shows "length (iframes g) = length (invocationObjects g)"
    and "invocations g u = Some (Some r) \<Longrightarrow>
           r < length (invocationObjects g) \<and>
           inv_uuid (invocationObjects g ! r) = u \<and>
           inv_iframe (invocationObjects g ! r) = Some r"
    and "r < length (invocationObjects g) \<Longrightarrow>
           inv_iframe (invocationObjects g ! r) = Some i \<Longrightarrow>
           i = r \<and> attached (iframes g ! r) \<and>
           invocations g (inv_uuid (invocationObjects g ! r)) = Some (Some r)"
  using assms unfolding invocation_inv_def by blast+

lemma invocation_inv_create:
  assumes inv: "invocation_inv g" and new: "invocations g u = None"
  shows "invocation_inv
           (g\<lparr> iframes := iframes g @ [blank_iframe],
               invocationObjects := invocationObjects g @
                 [\<lparr> inv_path = p, inv_uuid = u, inv_iframe = Some (length (iframes g)) \<rparr>],
               invocations := (invocations g)(u \<mapsto> Some (length (invocationObjects g))) \<rparr>)"
    (is "invocation_inv ?g'")
proof (rule invocation_invI)
  let ?n = "length (invocationObjects g)"
  let ?obj = "\<lparr> inv_path = p, inv_uuid = u, inv_iframe = Some (length (iframes g)) \<rparr>"
  have len: "length (iframes g) = ?n" by (rule invocation_invD(1)[OF inv])
  have objs: "invocationObjects ?g' = invocationObjects g @ [?obj]"
    and frs: "iframes ?g' = iframes g @ [blank_iframe]"
    and invs: "invocations ?g' = (invocations g)(u \<mapsto> Some ?n)" by simp_all
  show "length (iframes ?g') = length (invocationObjects ?g')" using len by simp
  {
    fix u' r assume a: "invocations ?g' u' = Some (Some r)"
    show "r < length (invocationObjects ?g') \<and>
          inv_uuid (invocationObjects ?g' ! r) = u' \<and>
          inv_iframe (invocationObjects ?g' ! r) = Some r"
    proof (cases "u' = u")
      case True
      then have "r = ?n" using a by simp
      then show ?thesis using True len by (simp add: objs)
    next
      case False
      then have "invocations g u' = Some (Some r)" using a by simp
      then have "r < ?n \<and> inv_uuid (invocationObjects g ! r) = u' \<and>
                 inv_iframe (invocationObjects g ! r) = Some r"
        by (rule invocation_invD(2)[OF inv])
      then show ?thesis by (simp add: objs nth_append)
    qed
  }
  {
    fix r i assume r: "r < length (invocationObjects ?g')"
      and i: "inv_iframe (invocationObjects ?g' ! r) = Some i"
    show "i = r \<and> attached (iframes ?g' ! r) \<and>
          invocations ?g' (inv_uuid (invocationObjects ?g' ! r)) = Some (Some r)"
    proof (cases "r < ?n")
      case True
      then have old: "invocationObjects ?g' ! r = invocationObjects g ! r"
        "iframes ?g' ! r = iframes g ! r" using len by (simp_all add: objs frs nth_append)
      have f: "i = r \<and> attached (iframes g ! r) \<and>
            invocations g (inv_uuid (invocationObjects g ! r)) = Some (Some r)"
        using invocation_invD(3)[OF inv True] i old by simp
      then have "inv_uuid (invocationObjects g ! r) \<noteq> u" using new by auto
      then show ?thesis using f old by (simp add: invs)
    next
      case False
      then have rn: "r = ?n" using r by (simp add: objs)
      then have o: "invocationObjects ?g' ! r = ?obj" and f: "iframes ?g' ! r = blank_iframe"
        using len by (simp_all add: objs frs nth_append)
      have "i = r" using i len rn unfolding o by simp
      moreover have "attached (iframes ?g' ! r)" unfolding f by (simp add: blank_iframe_def)
      moreover have "inv_uuid (invocationObjects ?g' ! r) = u" unfolding o by simp
      then have "invocations ?g' (inv_uuid (invocationObjects ?g' ! r)) = Some (Some r)"
        using rn by (simp only: invs fun_upd_same)
      ultimately show ?thesis by blast
    qed
  }
qed

lemma getOrCreate_result:
  "snd (getOrCreateInvocation p u g) =
     (if js_in u (invocations g) then g
      else g\<lparr> iframes := iframes g @ [blank_iframe],
               invocationObjects := invocationObjects g @
                 [\<lparr> inv_path = p, inv_uuid = u, inv_iframe = Some (length (iframes g)) \<rparr>],
               invocations := (invocations g)(u \<mapsto> Some (length (invocationObjects g))) \<rparr>)"
  by (simp add: getOrCreateInvocation_def Let_def new_Invocation_def)

lemma invocation_inv_getOrCreate:
  assumes inv: "invocation_inv g"
  shows "invocation_inv (snd (getOrCreateInvocation p u g))"
proof (cases "js_in u (invocations g)")
  case True
  then show ?thesis using inv by (simp add: getOrCreate_result)
next
  case False
  then have "invocations g u = None" by (simp add: js_in_def)
  then show ?thesis using invocation_inv_create[OF inv] False by (simp add: getOrCreate_result)
qed


lemma removeNode_nth:
  "length (removeNode i fs) = length fs"
  "j \<noteq> i \<Longrightarrow> removeNode i fs ! j = fs ! j"
  "i < length fs \<Longrightarrow> \<not> attached (removeNode i fs ! i)"
  by (simp_all add: removeNode_def)

lemma invocation_inv_dispose:
  assumes inv: "invocation_inv g"
  shows "invocation_inv (dispose r g)"
proof (cases "r < length (invocationObjects g) \<and> inv_iframe (invocationObjects g ! r) \<noteq> None")
  case False
  then have "dispose r g = g" by (auto simp: dispose_def Let_def)
  then show ?thesis using inv by simp
next
  case True
  then obtain i where r: "r < length (invocationObjects g)"
    and i: "inv_iframe (invocationObjects g ! r) = Some i" by blast
  let ?inv = "invocationObjects g ! r"
  let ?u = "inv_uuid ?inv"
  let ?g' = "g\<lparr> iframes := removeNode i (iframes g),
                 invocations := (invocations g)(?u \<mapsto> None),
                 invocationObjects := (invocationObjects g)[r := ?inv\<lparr>inv_iframe := None\<rparr>] \<rparr>"
  have d: "dispose r g = ?g'" using r i by (simp add: dispose_def Let_def)
  have own: "i = r" "invocations g ?u = Some (Some r)"
    using invocation_invD(3)[OF inv r i] by simp_all
  have objs: "invocationObjects ?g' = (invocationObjects g)[r := ?inv\<lparr>inv_iframe := None\<rparr>]"
    and frs: "iframes ?g' = removeNode r (iframes g)"
    and invs: "invocations ?g' = (invocations g)(?u \<mapsto> None)" using own(1) by simp_all
  have "invocation_inv ?g'"
  proof (rule invocation_invI)
    show "length (iframes ?g') = length (invocationObjects ?g')"
      using invocation_invD(1)[OF inv] by (simp add: removeNode_nth(1))
  next
    fix u' r' assume a: "invocations ?g' u' = Some (Some r')"
    then have ne: "u' \<noteq> ?u" by (auto simp: invs split: if_splits)
    then have "invocations g u' = Some (Some r')" using a by (simp add: invs)
    then have f: "r' < length (invocationObjects g) \<and>
                  inv_uuid (invocationObjects g ! r') = u' \<and>
                  inv_iframe (invocationObjects g ! r') = Some r'"
      by (rule invocation_invD(2)[OF inv])
    then have "r' \<noteq> r" using ne by auto
    then have "invocationObjects ?g' ! r' = invocationObjects g ! r'" by (simp add: objs)
    then show "r' < length (invocationObjects ?g') \<and>
          inv_uuid (invocationObjects ?g' ! r') = u' \<and>
          inv_iframe (invocationObjects ?g' ! r') = Some r'"
      using f by (simp add: objs)
  next
    fix r' i' assume r': "r' < length (invocationObjects ?g')"
      and i': "inv_iframe (invocationObjects ?g' ! r') = Some i'"
    have r'lt: "r' < length (invocationObjects g)" using r' by (simp add: objs)
    have "invocationObjects ?g' ! r = ?inv\<lparr>inv_iframe := None\<rparr>" using r by (simp add: objs)
    then have ne: "r' \<noteq> r" using i' by auto
    then have same: "invocationObjects ?g' ! r' = invocationObjects g ! r'" by (simp add: objs)
    have f: "i' = r' \<and> attached (iframes g ! r') \<and>
             invocations g (inv_uuid (invocationObjects g ! r')) = Some (Some r')"
      using invocation_invD(3)[OF inv r'lt] i' same by simp
    then have "inv_uuid (invocationObjects g ! r') \<noteq> ?u" using own(2) ne by auto
    then have "invocations ?g' (inv_uuid (invocationObjects ?g' ! r')) = Some (Some r')"
      using f same by (simp add: invs)
    moreover have "attached (iframes ?g' ! r')"
      using f ne by (simp add: frs removeNode_nth(2))
    ultimately show "i' = r' \<and> attached (iframes ?g' ! r') \<and>
          invocations ?g' (inv_uuid (invocationObjects ?g' ! r')) = Some (Some r')"
      using f by blast
  qed
  then show ?thesis unfolding d .
qed

lemma invocation_inv_update_iframe:
  assumes inv: "invocation_inv g" and f: "\<And>fr. attached (f fr) = attached fr"
  shows "invocation_inv (update_iframe i f g)"
proof (rule invocation_invI)
  have objs: "invocationObjects (update_iframe i f g) = invocationObjects g"
    and invs: "invocations (update_iframe i f g) = invocations g"
    and len: "length (iframes (update_iframe i f g)) = length (iframes g)"
    by (simp_all add: update_iframe_def)
  have att: "attached (iframes (update_iframe i f g) ! j) = attached (iframes g ! j)"
    if "j < length (iframes g)" for j
    using that f by (cases "j = i") (simp_all add: update_iframe_def)
  show "length (iframes (update_iframe i f g)) = length (invocationObjects (update_iframe i f g))"
    using invocation_invD(1)[OF inv] by (simp add: objs len)
  {
    fix u r assume "invocations (update_iframe i f g) u = Some (Some r)"
    then show "r < length (invocationObjects (update_iframe i f g)) \<and>
          inv_uuid (invocationObjects (update_iframe i f g) ! r) = u \<and>
          inv_iframe (invocationObjects (update_iframe i f g) ! r) = Some r"
      using invocation_invD(2)[OF inv] by (simp add: objs invs)
  }
  {
    fix r j assume r: "r < length (invocationObjects (update_iframe i f g))"
      and j: "inv_iframe (invocationObjects (update_iframe i f g) ! r) = Some j"
    have r': "r < length (invocationObjects g)" using r by (simp add: objs)
    then have "r < length (iframes g)" using invocation_invD(1)[OF inv] by simp
    then show "j = r \<and> attached (iframes (update_iframe i f g) ! r) \<and>
          invocations (update_iframe i f g)
            (inv_uuid (invocationObjects (update_iframe i f g) ! r)) = Some (Some r)"
      using invocation_invD(3)[OF inv r'] j att by (simp add: objs invs)
  }
qed


lemma invocation_event:
  assumes inv: "invocation_inv g"
    and h: "(case getOrCreateInvocation p u g of
               (invocation, g1) \<Rightarrow>
                 (case iframe_of invocation g1 of
                    Inl e \<Rightarrow> Inl e
                  | Inr None \<Rightarrow> Inr g1
                  | Inr (Some i) \<Rightarrow> Inr (update_iframe i f g1))) = Inr g'"
    and f: "\<And>fr. attached (f fr) = attached fr"
  shows "invocation_inv g'"
proof -
  obtain invocation g1 where goc: "getOrCreateInvocation p u g = (invocation, g1)"
    by (cases "getOrCreateInvocation p u g")
  then have "g1 = snd (getOrCreateInvocation p u g)" by simp
  then have inv1: "invocation_inv g1" using invocation_inv_getOrCreate[OF inv] by simp
  show ?thesis
  proof (cases "iframe_of invocation g1")
    case (Inl e)
    then show ?thesis using h goc by simp
  next
    case (Inr oi)
    show ?thesis
    proof (cases oi)
      case None
      then show ?thesis using h goc Inr inv1 by simp
    next
      case (Some i)
      then have "g' = update_iframe i f g1" using h goc Inr by simp
      then show ?thesis using invocation_inv_update_iframe[OF inv1 f] by simp
    qed
  qed
qed

lemma invocation_inv_handle:
  assumes inv: "invocation_inv g" and h: "handleBackendEvent m g = Inr g'"
  shows "invocation_inv g'"
proof (cases m)
  case (StateChange p st)
  then have "setTestState p st g = Inr g'" using h by (simp add: handleBackendEvent_def)
  then have "same_invocations g' g"
    using setTestState_frame[of p st g g'] by (simp add: same_invocations_def)
  then show ?thesis using inv invocation_inv_cong by blast
next
  case (SetHtml p u a html)
  show ?thesis
    by (rule invocation_event[OF inv, where p = p and u = u and f =
          "\<lambda>fr. document_write html (if \<not> a \<and> body fr \<noteq> None then removeChildren fr else fr)"])
       (use h SetHtml in \<open>simp_all add: handleBackendEvent_def document_write_def removeChildren_def\<close>)
next
  case (RunJs p u a js)
  show ?thesis
    by (rule invocation_event[OF inv, where p = p and u = u and f =
          "\<lambda>fr. fr\<lparr>evaluated := evaluated fr @ [(a, js)]\<rparr>"])
       (use h RunJs in \<open>simp_all add: handleBackendEvent_def\<close>)
next
  case (CallJsFunction p u name a)
  show ?thesis
    by (rule invocation_event[OF inv, where p = p and u = u and f =
          "\<lambda>fr. if name \<in> set (definedFunctions fr)
                then fr\<lparr>applied := applied fr @ [(name, a)]\<rparr> else fr"])
       (use h CallJsFunction in \<open>simp_all add: handleBackendEvent_def\<close>)
next
  case (DestroyTest u)
  then have "g' = g \<or> (\<exists>r. g' = dispose r g)"
    using h by (auto simp: handleBackendEvent_def split: property.splits)
  then show ?thesis using inv invocation_inv_dispose[OF inv] by auto
next
  case (PendingShutdown info)
  then have "g' = setPendingShutdown info g" using h by (simp add: handleBackendEvent_def)
  then show ?thesis using inv invocation_inv_cong[OF setPendingShutdown_same(2)] by simp
next
  case (Hello u)
  have "same_invocations g' g"
    using h unfolding Hello
    by (auto simp: handleBackendEvent_def keepAlive_def sendEvent_def same_invocations_def
          split: if_splits)
  then show ?thesis using inv invocation_inv_cong by blast
next
  case (Log l)
  have "same_invocations g' g"
    using h unfolding Log
    by (auto simp: handleBackendEvent_def logToConsole_def same_invocations_def)
  then show ?thesis using inv invocation_inv_cong by blast
next
  case (SystemInfo si)
  have "same_invocations g' g"
    using h unfolding SystemInfo
    by (auto simp: handleBackendEvent_def setSystemInfo_def same_invocations_def)
  then show ?thesis using inv invocation_inv_cong by blast
next
  case (OtherEvent ty)
  then show ?thesis using h inv by (simp add: handleBackendEvent_def)
qed

lemma addToNode_same_invocations:
  "same_invocations (addToNode pos t g) g"
  "same_invocations (addSubtests pos i ts g) g"
  by (induction pos t g and pos i ts g rule: addToNode_addSubtests.induct)
     (simp_all add: Let_def same_invocations_def)

lemma invocation_inv_sendEvent:
  "invocation_inv (sendEvent ty props g) = invocation_inv g"
  by (rule invocation_inv_cong) (simp add: same_invocations_def sendEvent_def)

lemma invocation_inv_step:
  assumes inv: "invocation_inv g"
  shows "invocation_inv (step h inp g)"
proof (cases inp)
  case SocketOpened
  then show ?thesis using inv invocation_inv_cong[of "ws_OPENED g" g]
    by (simp add: step_def socket_frame same_invocations_def)
next
  case SocketError
  then show ?thesis using inv invocation_inv_cong[of "ws_ERROR g" g]
    by (simp add: step_def socket_frame same_invocations_def)
next
  case SocketClosed
  then show ?thesis using inv invocation_inv_cong[of "ws_CLOSED g" g]
    by (simp add: step_def socket_frame same_invocations_def)
next
  case KeepAliveTimer
  then show ?thesis using inv invocation_inv_cong[of "keepAlive g" g]
    by (simp add: step_def socket_frame same_invocations_def)
next
  case (TestStatesReply stateMap)
  then show ?thesis using inv invocation_inv_cong[of "setTestStates stateMap g" g]
    by (simp add: step_def setTestStates_frame same_invocations_def)
next
  case (SystemInfoReply systemInfo)
  then show ?thesis using inv invocation_inv_cong[of "setSystemInfo systemInfo g" g]
    by (simp add: step_def socket_frame same_invocations_def)
next
  case (Backend m)
  then show ?thesis using inv invocation_inv_handle[OF inv, of m]
    by (auto simp: step_def split: sum.splits)
next
  case (TestListReply t)
  have "same_invocations (setTestList t g) g"
    using addToNode_same_invocations(1)[of "[]" t "g\<lparr>testList := Some t\<rparr>"]
    by (simp add: setTestList_def same_invocations_def)
  then show ?thesis using inv TestListReply invocation_inv_cong by (simp add: step_def)
next
  case (TestListOptionsReply hash)
  have "same_invocations (testListOptions hash g) g"
    by (simp add: same_invocations_def testListOptions_def setEngineeringMode_def)
  then show ?thesis using inv TestListOptionsReply invocation_inv_cong by (simp add: step_def)
next
  case CtrlAlt0
  then show ?thesis using inv invocation_inv_cong[OF prompt_same(2)] by (simp add: step_def)
next
  case (PasswordText entered)
  then show ?thesis using inv invocation_inv_cong[OF passwordEntered_same(2)]
    by (simp add: step_def)
next
  case EscapeKey
  then show ?thesis using inv invocation_inv_sendEvent by (simp add: step_def onKey_def)
next
  case (MenuChoice p k)
  then show ?thesis using inv invocation_inv_cong[OF menuChoice_same(2)] by (simp add: step_def)
next
  case (SandboxPass r)
  then show ?thesis using inv invocation_inv_dispose invocation_inv_sendEvent
    by (simp add: step_def Test_pass_def Let_def)
next
  case (SandboxFail r msg)
  then show ?thesis using inv invocation_inv_dispose invocation_inv_sendEvent
    by (simp add: step_def Test_fail_def Let_def)
next
  case (SandboxTestEvent r subtype data)
  then show ?thesis using inv invocation_inv_sendEvent
    by (simp add: step_def Test_sendTestEvent_def Let_def)
qed

lemma invocation_inv_run: "invocation_inv g \<Longrightarrow> invocation_inv (run h inps g)"
  by (induction inps arbitrary: g) (simp_all add: invocation_inv_step)

lemma invocation_inv_new_Goofy: "invocation_inv (new_Goofy b)"
  by (simp add: invocation_inv_def new_Goofy_def)

lemma run_append: "run h (xs @ ys) g = run h ys (run h xs g)"
  by (induction xs arbitrary: g) simp_all

lemma handleAll_run: "handleAll ms g = run h (map Backend ms) g"
  by (induction ms arbitrary: g) (simp_all add: step_def split: sum.splits)

lemma sample_goofy_run:
  "sample_goofy = run digest_of_empty [TestListReply sample_testList] (new_Goofy True)"
  by (simp add: sample_goofy_def step_def new_Goofy_def)

lemma sample_active_run:
  "sample_active =
     run digest_of_empty
       ([TestListReply sample_testList] @
        map Backend
          [SetHtml ''SMT.LED'' ''u1'' False ''<p>LED</p>'',
           StateChange ''SMT.LED'' \<lparr>status = ''ACTIVE'', error_msg = None, count = 1\<rparr>])
       (new_Goofy True)"
  unfolding run_append sample_goofy_run[symmetric] sample_active_def
  by (rule handleAll_run)

section \<open>State changes\<close>

text \<open>
  Claim C2. In every state that the controller reaches from its start, for a path \<open>p\<close>
  that has a node \<open>n\<close> in the tree model, handling a \<^verbatim>\<open>state_change\<close> event for \<open>p\<close>
  with state \<open>st\<close> succeeds; afterwards the state stored for \<open>p\<close> is exactly \<open>st\<close>, the
  only class of the node's element that starts with \<^verbatim>\<open>goofy-status-\<close> is the class of
  the new status, and the other classes of the element are as before.
\<close>

theorem state_change_sets_state_and_class:
  assumes "g = run h inps (new_Goofy b)" and "pathNodeMap g p = Some n"
  shows "\<exists>g' nd nd'. handleBackendEvent (StateChange p st) g = Inr g' \<and>
           test_state g' p = Some st \<and>
           treeNodes g n = Some nd \<and> treeNodes g' n = Some nd' \<and>
           status_classes (classes nd') = [''goofy-status-'' @ toLowerCase (status st)] \<and>
           filter (\<lambda>c. \<not> startsWith c ''goofy-status-'') (classes nd') =
           filter (\<lambda>c. \<not> startsWith c ''goofy-status-'') (classes nd)"
proof -
  have inv: "tree_inv g"
    unfolding assms(1) by (rule tree_inv_run[OF tree_inv_new_Goofy])
  obtain nd where nd: "treeNodes g n = Some nd"
    using tree_invD(1)[OF inv assms(2)] by blast
  obtain r t e where r: "pathTestMap g p = Some r" "testList g = Some t" "entry_at t r = Some e"
    using tree_invD(2)[OF inv assms(2)] by blast
  show ?thesis
    using setTestState_present[OF assms(2) nd r, of st] nd
    by (auto simp: handleBackendEvent_def)
qed

theorem state_change_sets_state_and_class_witness:
  "sample_goofy = run digest_of_empty [TestListReply sample_testList] (new_Goofy True) \<and>
   pathNodeMap sample_goofy ''SMT.LED'' = Some [0, 0] \<and>
   treeNodes sample_goofy [0, 0] = Some \<lparr>classes = [], expanded = False, childCount = 0\<rparr> \<and>
   (\<exists>g'. handleBackendEvent
           (StateChange ''SMT.LED'' \<lparr>status = ''ACTIVE'', error_msg = None, count = 1\<rparr>)
           sample_goofy = Inr g' \<and>
         test_state g' ''SMT.LED'' = Some \<lparr>status = ''ACTIVE'', error_msg = None, count = 1\<rparr> \<and>
         (\<exists>nd'. treeNodes g' [0, 0] = Some nd' \<and>
            status_classes (classes nd') = [''goofy-status-active'']))"
proof -
  have lower: "toLowerCase ''ACTIVE'' = ''active''"
    by code_simp
  show ?thesis
    using state_change_sets_state_and_class[OF sample_goofy_run sample_LED(1),
        of "\<lparr>status = ''ACTIVE'', error_msg = None, count = 1\<rparr>"]
      sample_LED sample_goofy_run lower
    by auto
qed

section \<open>Destroying a test\<close>

text \<open>
  Claim C9. In every state that the controller reaches from its start, when the run
  id \<open>u\<close> is bound to the invocation object \<open>r\<close>, the sandbox of \<open>r\<close> is on the page and
  handling \<^verbatim>\<open>destroy_test\<close> for \<open>u\<close> succeeds; afterwards \<open>u\<close> is bound to \<^verbatim>\<open>null\<close>, the
  object has no iframe, its iframe is off the page while the other sandboxes stay,
  and the test list with every state in it is as before.
\<close>

theorem destroy_test_disposes_and_keeps_states:
  assumes "g = run h inps (new_Goofy b)" and "invocations g u = Some (Some r)"
  shows "\<exists>g'. handleBackendEvent (DestroyTest u) g = Inr g' \<and>
           r \<in> set (live_iframes g) \<and>
           invocations g' u = Some None \<and>
           inv_iframe (invocationObjects g' ! r) = None \<and>
           live_iframes g' = removeAll r (live_iframes g) \<and>
           testList g' = testList g \<and> pathTestMap g' = pathTestMap g \<and>
           test_state g' = test_state g"
proof -
  have inv: "invocation_inv g"
    unfolding assms(1) by (rule invocation_inv_run[OF invocation_inv_new_Goofy])
  have obj: "r < length (invocationObjects g)" "inv_uuid (invocationObjects g ! r) = u"
    "inv_iframe (invocationObjects g ! r) = Some r"
    using invocation_invD(2)[OF inv assms(2)] by simp_all
  have "attached (iframes g ! r)" "r < length (iframes g)"
    using invocation_invD(3)[OF inv obj(1) obj(3)] invocation_invD(1)[OF inv] obj(1) by simp_all
  then have live: "r \<in> set (live_iframes g)" by (simp add: live_iframes_def)
  have "handleBackendEvent (DestroyTest u) g = Inr (dispose r g)"
    using assms(2) by (simp add: handleBackendEvent_def js_get_def)
  then show ?thesis
    using dispose_live[OF obj(1) obj(3)] obj(2) live by simp
qed

text \<open>
  The scenario of the specification: the sandbox \<^verbatim>\<open>u1\<close> of \<^verbatim>\<open>SMT.LED\<close> exists, the
  test was set to \<^verbatim>\<open>ACTIVE\<close> by a \<^verbatim>\<open>state_change\<close>, then \<^verbatim>\<open>destroy_test\<close> arrives.
\<close>

theorem destroy_test_disposes_and_keeps_states_witness:
  "invocations sample_active ''u1'' = Some (Some 0) \<and>
   live_iframes sample_active = [0] \<and>
   test_state sample_active ''SMT.LED'' =
     Some \<lparr>status = ''ACTIVE'', error_msg = None, count = 1\<rparr> \<and>
   (\<exists>g'. handleBackendEvent (DestroyTest ''u1'') sample_active = Inr g' \<and>
         invocations g' ''u1'' = Some None \<and>
         live_iframes g' = [] \<and>
         test_state g' ''SMT.LED'' =
           Some \<lparr>status = ''ACTIVE'', error_msg = None, count = 1\<rparr>)"
proof -
  have live: "live_iframes sample_active = [0]"
    by (simp add: live_iframes_def sample_active_eq)
  show ?thesis
    using destroy_test_disposes_and_keeps_states[OF sample_active_run sample_active_eq(1)]
      sample_active_eq live
    by auto
qed

end
